theory Spec2Isabelle
  imports Main
begin

section \<open>JavaScript values\<close>

text \<open>
  The reducers of \<^verbatim>\<open>response-optimizer.ts\<close> and the pagination loop of
  \<^verbatim>\<open>graph-tools.ts\<close> work on values of type \<^verbatim>\<open>any\<close>: parsed JSON documents, in which
  a reducer may store \<^verbatim>\<open>undefined\<close>. An object is an association list in insertion order
  (the first binding of a key is the one read). Numbers are the integers that a double
  holds exactly; a string is a list of code units below 256.
\<close>

datatype jsval =
    JUndefined
  | JNull
  | JBool bool
  | JNum int
  | JStr string
  | JArr "jsval list"
  | JObj "(string \<times> jsval) list"

type_synonym obj = "(string \<times> jsval) list"

datatype js_error = TypeError

text \<open>Truthiness, as \<^verbatim>\<open>if (x)\<close>, \<^verbatim>\<open>!x\<close>, \<^verbatim>\<open>x && y\<close> and \<^verbatim>\<open>x || y\<close> test it.\<close>

fun truthy :: "jsval \<Rightarrow> bool" where
  "truthy JUndefined = False"
| "truthy JNull = False"
| "truthy (JBool b) = b"
| "truthy (JNum n) = (n \<noteq> 0)"
| "truthy (JStr s) = (s \<noteq> [])"
| "truthy (JArr xs) = True"
| "truthy (JObj kvs) = True"

text \<open>\<^verbatim>\<open>typeof x === 'object'\<close> holds of \<^verbatim>\<open>null\<close>, arrays and objects.\<close>

fun typeof_object :: "jsval \<Rightarrow> bool" where
  "typeof_object JNull = True"
| "typeof_object (JArr xs) = True"
| "typeof_object (JObj kvs) = True"
| "typeof_object v = False"

fun nullish :: "jsval \<Rightarrow> bool" where
  "nullish JUndefined = True"
| "nullish JNull = True"
| "nullish v = False"

definition obj_get :: "obj \<Rightarrow> string \<Rightarrow> jsval" where
  "obj_get kvs k = (case map_of kvs k of None \<Rightarrow> JUndefined | Some v \<Rightarrow> v)"

fun obj_set :: "obj \<Rightarrow> string \<Rightarrow> jsval \<Rightarrow> obj" where
  "obj_set [] k v = [(k, v)]"
| "obj_set ((k', v') # kvs) k v =
     (if k' = k then (k, v) # kvs else (k', v') # obj_set kvs k v)"

definition obj_delete :: "obj \<Rightarrow> string \<Rightarrow> obj" where
  "obj_delete kvs k = filter (\<lambda>kv. fst kv \<noteq> k) kvs"

text \<open>
  \<^verbatim>\<open>x.k\<close> for one of the member names the code reads (none of them an array index or a
  built-in such as \<^verbatim>\<open>length\<close>): on \<^verbatim>\<open>null\<close> and \<^verbatim>\<open>undefined\<close> the read raises a
  TypeError, on an object it is the lookup, on anything else it is \<^verbatim>\<open>undefined\<close>.
\<close>

fun member :: "jsval \<Rightarrow> string \<Rightarrow> jsval" where
  "member (JObj kvs) k = obj_get kvs k"
| "member v k = JUndefined"

definition js_prop :: "jsval \<Rightarrow> string \<Rightarrow> js_error + jsval" where
  "js_prop v k = (if nullish v then Inl TypeError else Inr (member v k))"

text \<open>\<^verbatim>\<open>x?.k\<close>: \<^verbatim>\<open>undefined\<close> when \<^verbatim>\<open>x\<close> is nullish.\<close>

definition opt_member :: "jsval \<Rightarrow> string \<Rightarrow> jsval" where
  "opt_member v k = (if nullish v then JUndefined else member v k)"

text \<open>Decimal numerals, for the keys an array gets when it is spread into an object.\<close>

definition digit_char :: "nat \<Rightarrow> char" where
  "digit_char d = char_of (48 + d)"

function show_nat :: "nat \<Rightarrow> string" where
  "show_nat n = (if n < 10 then [digit_char n] else show_nat (n div 10) @ [digit_char (n mod 10)])"
  by pat_completeness auto
termination
  by (relation "measure id") auto

declare show_nat.simps [simp del]

text \<open>\<^verbatim>\<open>{ ...x }\<close> for a truthy \<^verbatim>\<open>x\<close> with \<^verbatim>\<open>typeof x === 'object'\<close>.\<close>

fun spread :: "jsval \<Rightarrow> obj" where
  "spread (JObj kvs) = kvs"
| "spread (JArr xs) = zip (map show_nat [0..<length xs]) xs"
| "spread v = []"

section \<open>Strings and the regular expressions of the content normalizer\<close>

text \<open>
  \<^verbatim>\<open>s.replace(/re/g, r)\<close> scans from the left: where the expression matches, the match is
  replaced and the scan goes on behind it; elsewhere one character is copied. A matcher
  gives the length of the match at the head of its argument; none of the expressions of
  this program matches the empty string.
\<close>

function replace_all :: "(string \<Rightarrow> nat option) \<Rightarrow> string \<Rightarrow> string \<Rightarrow> string" where
  "replace_all m r [] = []"
| "replace_all m r (x # xs) =
     (case m (x # xs) of
        None \<Rightarrow> x # replace_all m r xs
      | Some n \<Rightarrow> r @ replace_all m r (drop (n - 1) xs))"
  by pat_completeness auto
termination
  by (relation "measure (\<lambda>(m, r, s). length s)") auto

text \<open>White space as \<^verbatim>\<open>\s\<close> and \<^verbatim>\<open>trim()\<close> see it, among the code units below 256.\<close>

definition is_space :: "char \<Rightarrow> bool" where
  "is_space c \<longleftrightarrow> c \<in> set [CHR 0x09, CHR 0x0A, CHR 0x0B, CHR 0x0C, CHR 0x0D, CHR 0x20, CHR 0xA0]"

definition lower_ascii :: "char \<Rightarrow> char" where
  "lower_ascii c =
     (let n = (of_char c :: nat) in if 65 \<le> n \<and> n \<le> 90 then char_of (n + 32) else c)"

text \<open>
  A literal at the head of the string under the \<^verbatim>\<open>i\<close> flag (the pattern is written in
  lower case); the result is the rest of the string.
\<close>

fun ci_prefix :: "string \<Rightarrow> string \<Rightarrow> string option" where
  "ci_prefix [] s = Some s"
| "ci_prefix (p # ps) [] = None"
| "ci_prefix (p # ps) (c # cs) = (if lower_ascii c = p then ci_prefix ps cs else None)"

text \<open>A literal, case-sensitive.\<close>

definition match_lit :: "string \<Rightarrow> string \<Rightarrow> nat option" where
  "match_lit p s = (if take (length p) s = p then Some (length p) else None)"

definition match_lit_ci :: "string \<Rightarrow> string \<Rightarrow> nat option" where
  "match_lit_ci p s = (case ci_prefix p s of None \<Rightarrow> None | Some t \<Rightarrow> Some (length p))"

text \<open>\<^verbatim>\<open>/<br\s*\/?>/gi\<close>\<close>

definition match_br :: "string \<Rightarrow> nat option" where
  "match_br s =
     (case ci_prefix ''<br'' s of
        None \<Rightarrow> None
      | Some t \<Rightarrow>
          (let u = dropWhile is_space t;
               v = (case u of [] \<Rightarrow> u | c # w \<Rightarrow> if c = CHR ''/'' then w else u)
           in case v of
                [] \<Rightarrow> None
              | c # w \<Rightarrow> if c = CHR ''>'' then Some (length s - length w) else None))"

text \<open>\<^verbatim>\<open>/<[^>]*>/g\<close>\<close>

fun match_tag :: "string \<Rightarrow> nat option" where
  "match_tag [] = None"
| "match_tag (c # t) =
     (if c = CHR ''<'' \<and> CHR ''>'' \<in> set t
      then Some (length (takeWhile (\<lambda>d. d \<noteq> CHR ''>'') t) + 2) else None)"

text \<open>
  \<^verbatim>\<open>/\n\s*\n/g\<close>: the star is greedy and gives back until a line feed follows, so the
  match ends at the last line feed of the white space behind the first one.
\<close>

fun match_blank :: "string \<Rightarrow> nat option" where
  "match_blank [] = None"
| "match_blank (c # t) =
     (let ws = takeWhile is_space t
      in if c = CHR 0x0A \<and> CHR 0x0A \<in> set ws
         then Some (1 + (length ws - length (takeWhile (\<lambda>d. d \<noteq> CHR 0x0A) (rev ws))))
         else None)"

definition trim :: "string \<Rightarrow> string" where
  "trim s = rev (dropWhile is_space (rev (dropWhile is_space s)))"

text \<open>
  \<^verbatim>\<open>/<img[^>]*src\s*=\s*["']data:[^"']*["'][^>]*>/gi\<close> and the same with \<^verbatim>\<open>cid:\<close>.
  From a given place of \<^verbatim>\<open>src\<close> on, the rest of the expression has one way to match.
  The first star is greedy: of the places of \<^verbatim>\<open>src\<close> before the first \<^verbatim>\<open>>\<close>, the last
  one from which the rest matches is taken.
\<close>

definition is_quote :: "char \<Rightarrow> bool" where
  "is_quote c \<longleftrightarrow> c = CHR 0x22 \<or> c = CHR 0x27"

definition match_src :: "string \<Rightarrow> string \<Rightarrow> nat option" where
  "match_src scheme s =
     (case ci_prefix ''src'' s of
        None \<Rightarrow> None
      | Some t1 \<Rightarrow>
          (case dropWhile is_space t1 of
             [] \<Rightarrow> None
           | e # t2 \<Rightarrow>
               if e \<noteq> CHR ''='' then None
               else (case dropWhile is_space t2 of
                  [] \<Rightarrow> None
                | q # t3 \<Rightarrow>
                    if \<not> is_quote q then None
                    else (case ci_prefix scheme t3 of
                       None \<Rightarrow> None
                     | Some t4 \<Rightarrow>
                         (case dropWhile (\<lambda>d. \<not> is_quote d) t4 of
                            [] \<Rightarrow> None
                          | q' # t5 \<Rightarrow>
                              (case dropWhile (\<lambda>d. d \<noteq> CHR ''>'') t5 of
                                 [] \<Rightarrow> None
                               | g # t6 \<Rightarrow> Some (length s - length t6)))))))"

fun scan_src :: "string \<Rightarrow> string \<Rightarrow> nat option" where
  "scan_src scheme [] = None"
| "scan_src scheme (c # cs) =
     (case (if c = CHR ''>'' then None else scan_src scheme cs) of
        Some n \<Rightarrow> Some (Suc n)
      | None \<Rightarrow> match_src scheme (c # cs))"

definition match_img :: "string \<Rightarrow> string \<Rightarrow> nat option" where
  "match_img scheme s =
     (case ci_prefix ''<img'' s of
        None \<Rightarrow> None
      | Some t \<Rightarrow> map_option (\<lambda>n. n + 4) (scan_src scheme t))"

section \<open>Content normalizer (\<^verbatim>\<open>response-optimizer.ts\<close>)\<close>

definition stripHtmlTags :: "string \<Rightarrow> string" where
  "stripHtmlTags html =
     (if html = [] then []
      else
        let t1 = replace_all match_br [CHR 0x0A] html;
            t2 = replace_all (match_lit_ci ''</p>'') [CHR 0x0A] t1;
            t3 = replace_all (match_lit_ci ''</div>'') [CHR 0x0A] t2;
            t4 = replace_all match_tag [] t3;
            t5 = replace_all (match_lit ''&nbsp;'') '' '' t4;
            t6 = replace_all (match_lit ''&amp;'') ''&'' t5;
            t7 = replace_all (match_lit ''&lt;'') ''<'' t6;
            t8 = replace_all (match_lit ''&gt;'') ''>'' t7;
            t9 = replace_all (match_lit ''&quot;'') [CHR 0x22] t8;
            t10 = replace_all (match_lit ''&#39;'') [CHR 0x27] t9;
            u1 = replace_all (match_lit [CHR 0x0D, CHR 0x0A]) [CHR 0x0A] t10;
            u2 = replace_all (match_lit [CHR 0x0D]) [CHR 0x0A] u1;
            u3 = replace_all match_blank [CHR 0x0A, CHR 0x0A] u2
        in trim u3)"

definition removeEmbeddedImages :: "string \<Rightarrow> string" where
  "removeEmbeddedImages html =
     (if html = [] then html else replace_all (match_img ''data:'') ''[IMAGE_REMOVED]'' html)"

definition removeInlineAttachments :: "string \<Rightarrow> string" where
  "removeInlineAttachments html =
     (if html = [] then html else replace_all (match_img ''cid:'') ''[ATTACHMENT_REMOVED]'' html)"

section \<open>Body, entity and collection reducers (\<^verbatim>\<open>response-optimizer.ts\<close>)\<close>

text \<open>
  \<^verbatim>\<open>OptimizationConfig\<close>. The two flags carry a suffix, their names being those of the
  functions they switch on. The numbers are integers.
\<close>

record OptimizationConfig =
  maxHtmlContentSize :: int
  stripHtmlToText :: bool
  removeEmbeddedImages_flag :: bool
  removeInlineAttachments_flag :: bool
  mailSelectFields :: "string list"
  maxItemsInCollection :: int

definition DEFAULT_LLM_OPTIMIZATION :: OptimizationConfig where
  "DEFAULT_LLM_OPTIMIZATION =
     \<lparr> maxHtmlContentSize = 2000,
       stripHtmlToText = True,
       removeEmbeddedImages_flag = True,
       removeInlineAttachments_flag = True,
       mailSelectFields =
         [''id'', ''subject'', ''sender'', ''from'', ''toRecipients'', ''ccRecipients'',
          ''receivedDateTime'', ''sentDateTime'', ''hasAttachments'', ''importance'',
          ''isRead'', ''bodyPreview'', ''body''],
       maxItemsInCollection = 50 \<rparr>"

text \<open>\<^verbatim>\<open>s.substring(0, n)\<close> and \<^verbatim>\<open>xs.slice(0, n)\<close> for an integer \<^verbatim>\<open>n\<close>.\<close>

definition substring0 :: "string \<Rightarrow> int \<Rightarrow> string" where
  "substring0 s n = take (nat n) s"

definition slice0 :: "'a list \<Rightarrow> int \<Rightarrow> 'a list" where
  "slice0 xs n = (if n < 0 then take (nat (int (length xs) + n)) xs else take (nat n) xs)"

text \<open>
  The three stages of \<^verbatim>\<open>optimizeMessageBody\<close> on a content string: media removal,
  the decision to strip (which also sets \<^verbatim>\<open>contentType\<close>), and truncation.
\<close>

definition media_reduced :: "OptimizationConfig \<Rightarrow> string \<Rightarrow> string" where
  "media_reduced config content =
     (let c1 = (if removeEmbeddedImages_flag config then removeEmbeddedImages content else content)
      in if removeInlineAttachments_flag config then removeInlineAttachments c1 else c1)"

definition strips :: "OptimizationConfig \<Rightarrow> jsval \<Rightarrow> string \<Rightarrow> bool" where
  "strips config body content \<longleftrightarrow>
     (stripHtmlToText config \<or> int (length content) > maxHtmlContentSize config) \<and>
     (member body ''contentType'' = JStr ''html'' \<or> CHR ''<'' \<in> set content)"

definition truncated :: "OptimizationConfig \<Rightarrow> string \<Rightarrow> string" where
  "truncated config content =
     (if int (length content) > maxHtmlContentSize config
      then substring0 content (maxHtmlContentSize config) @ ''...[TRUNCATED]''
      else content)"

definition optimizeMessageBody :: "jsval \<Rightarrow> OptimizationConfig \<Rightarrow> jsval" where
  "optimizeMessageBody body config =
     (if \<not> truthy body \<or> \<not> typeof_object body then body
      else
        let optimizedBody = spread body
        in case member body ''content'' of
             JStr content0 \<Rightarrow>
               if content0 = [] then JObj optimizedBody
               else
                 let content1 = media_reduced config content0;
                     strip = strips config body content1;
                     content2 = (if strip then stripHtmlTags content1 else content1);
                     optimizedBody1 =
                       (if strip then obj_set optimizedBody ''contentType'' (JStr ''text'')
                        else optimizedBody);
                     content3 = truncated config content2
                 in JObj (obj_set optimizedBody1 ''content'' (JStr content3))
           | other \<Rightarrow> JObj optimizedBody)"

text \<open>A callback that may raise, mapped over an array: the first exception ends the map.\<close>

fun map_throw :: "('a \<Rightarrow> js_error + 'b) \<Rightarrow> 'a list \<Rightarrow> js_error + 'b list" where
  "map_throw f [] = Inr []"
| "map_throw f (x # xs) =
     (case f x of
        Inl e \<Rightarrow> Inl e
      | Inr y \<Rightarrow> (case map_throw f xs of Inl e \<Rightarrow> Inl e | Inr ys \<Rightarrow> Inr (y # ys)))"

text \<open>
  The callback of the recipient map: \<^verbatim>\<open>recipient.emailAddress\<close> is a plain member read
  (it raises on a nullish entry), \<^verbatim>\<open>?.name\<close> and \<^verbatim>\<open>?.address\<close> are optional.
\<close>

definition flatten_recipient :: "jsval \<Rightarrow> js_error + jsval" where
  "flatten_recipient recipient =
     (case js_prop recipient ''emailAddress'' of
        Inl e \<Rightarrow> Inl e
      | Inr ea \<Rightarrow>
          Inr (JObj [(''name'', opt_member ea ''name''), (''address'', opt_member ea ''address'')]))"

definition simplify_recipients :: "string \<Rightarrow> obj \<Rightarrow> js_error + obj" where
  "simplify_recipients field optimized =
     (case obj_get optimized field of
        JArr rs \<Rightarrow>
          (case map_throw flatten_recipient rs of
             Inl e \<Rightarrow> Inl e
           | Inr rs' \<Rightarrow> Inr (obj_set optimized field (JArr rs')))
      | other \<Rightarrow> Inr optimized)"

definition simplify_sender :: "string \<Rightarrow> obj \<Rightarrow> obj" where
  "simplify_sender field optimized =
     (let ea = opt_member (obj_get optimized field) ''emailAddress''
      in if truthy ea
         then obj_set optimized field
                (JObj [(''name'', member ea ''name''), (''address'', member ea ''address'')])
         else optimized)"

fun for_each_throw :: "('k \<Rightarrow> 's \<Rightarrow> js_error + 's) \<Rightarrow> 'k list \<Rightarrow> 's \<Rightarrow> js_error + 's" where
  "for_each_throw f [] s = Inr s"
| "for_each_throw f (k # ks) s =
     (case f k s of Inl e \<Rightarrow> Inl e | Inr s' \<Rightarrow> for_each_throw f ks s')"

definition removed_fields :: "string list" where
  "removed_fields =
     [''conversationId'', ''conversationIndex'', ''internetMessageId'', ''webLink'',
      ''changeKey'', ''parentFolderId'', ''inferenceClassification'', ''flag'', ''categories'']"

definition optimizeMailMessage :: "jsval \<Rightarrow> OptimizationConfig \<Rightarrow> js_error + jsval" where
  "optimizeMailMessage message config =
     (if \<not> truthy message \<or> \<not> typeof_object message then Inr message
      else
        let optimized0 = spread message;
            optimized1 =
              (if truthy (member message ''body'')
               then obj_set optimized0 ''body'' (optimizeMessageBody (member message ''body'') config)
               else optimized0);
            optimized2 = fold (\<lambda>k ob. obj_delete ob k) removed_fields optimized1
        in case for_each_throw simplify_recipients
                  [''toRecipients'', ''ccRecipients'', ''bccRecipients''] optimized2 of
             Inl e \<Rightarrow> Inl e
           | Inr optimized3 \<Rightarrow>
               Inr (JObj (fold simplify_sender [''sender'', ''from''] optimized3)))"

text \<open>\<^verbatim>\<open>optimizeMailCollection\<close>; the log line of a truncation is not part of the value.\<close>

definition optimizeMailCollection :: "jsval \<Rightarrow> OptimizationConfig \<Rightarrow> js_error + jsval" where
  "optimizeMailCollection response config =
     (if \<not> truthy response \<or> \<not> typeof_object response then Inr response
      else
        let optimized = spread response
        in case member response ''value'' of
             JArr value0 \<Rightarrow>
               (let items =
                      (if int (length value0) > maxItemsInCollection config
                       then slice0 value0 (maxItemsInCollection config) else value0)
                in case map_throw (\<lambda>message. optimizeMailMessage message config) items of
                     Inl e \<Rightarrow> Inl e
                   | Inr value1 \<Rightarrow>
                       (let optimized1 = obj_set optimized ''value'' (JArr value1)
                        in Inr (JObj
                             (if truthy (obj_get optimized1 ''@odata.count'')
                              then obj_set optimized1 ''@odata.count'' (JNum (int (length value1)))
                              else optimized1))))
           | other \<Rightarrow> Inr (JObj optimized))"

section \<open>Page walker (\<^verbatim>\<open>graph-tools.ts\<close>, the \<^verbatim>\<open>fetchAllPages\<close> block)\<close>

text \<open>
  One continuation request, from \<^verbatim>\<open>new URL(nextLink)\<close> to \<^verbatim>\<open>JSON.parse\<close> of the text
  of the answer: it raises (\<open>FetchThrows\<close>), or the answer has no content
  (\<open>FetchEmpty\<close>), or the text parses to a document (\<open>FetchPage\<close>). The transport is
  not part of the program text at hand, so the walker takes it as a function of the link.
\<close>

datatype fetch_result = FetchThrows | FetchEmpty | FetchPage jsval

text \<open>
  The string of a value, as string concatenation takes it. An array is the join of its
  elements with commas, \<^verbatim>\<open>null\<close> and \<^verbatim>\<open>undefined\<close> elements giving the empty string.
  An object read from JSON text is \<^verbatim>\<open>[object Object]\<close>, unless it has a member
  \<^verbatim>\<open>toString\<close> of its own, which is no function: then the conversion raises.
\<close>

definition show_int :: "int \<Rightarrow> string" where
  "show_int n = (if n < 0 then CHR ''-'' # show_nat (nat (- n)) else show_nat (nat n))"

fun js_to_string :: "jsval \<Rightarrow> js_error + string"
  and js_join :: "jsval list \<Rightarrow> js_error + string" where
  "js_to_string JUndefined = Inr ''undefined''"
| "js_to_string JNull = Inr ''null''"
| "js_to_string (JBool b) = Inr (if b then ''true'' else ''false'')"
| "js_to_string (JNum n) = Inr (show_int n)"
| "js_to_string (JStr s) = Inr s"
| "js_to_string (JArr xs) = js_join xs"
| "js_to_string (JObj kvs) =
     (if map_of kvs ''toString'' \<noteq> None then Inl TypeError else Inr ''[object Object]'')"
| "js_join [] = Inr []"
| "js_join (x # xs) =
     (case (if nullish x then Inr [] else js_to_string x) of
        Inl e \<Rightarrow> Inl e
      | Inr a \<Rightarrow>
          if xs = [] then Inr a
          else (case js_join xs of Inl e \<Rightarrow> Inl e | Inr b \<Rightarrow> Inr (a @ '','' @ b)))"

text \<open>
  \<^verbatim>\<open>allItems.concat(value)\<close> with an array argument. On an array it appends the items.
  On a string (a first page whose \<^verbatim>\<open>value\<close> is a string) it is string concatenation
  with the string of the argument. A number, a boolean or an object read from JSON text
  has no such method, and the call raises, as every member read on \<^verbatim>\<open>null\<close> and
  \<^verbatim>\<open>undefined\<close> does.
\<close>

fun concat_items :: "jsval \<Rightarrow> jsval list \<Rightarrow> js_error + jsval" where
  "concat_items (JArr xs) ys = Inr (JArr (xs @ ys))"
| "concat_items (JStr s) ys =
     (case js_join ys of Inl e \<Rightarrow> Inl e | Inr t \<Rightarrow> Inr (JStr (s @ t)))"
| "concat_items v ys = Inl TypeError"

text \<open>\<^verbatim>\<open>allItems.length\<close>\<close>

fun js_length :: "jsval \<Rightarrow> jsval" where
  "js_length (JArr xs) = JNum (int (length xs))"
| "js_length (JStr s) = JNum (int (length s))"
| "js_length (JObj kvs) = obj_get kvs ''length''"
| "js_length v = JUndefined"

text \<open>
  The body of the loop after the request: the items of the page are appended when its
  \<^verbatim>\<open>value\<close> is an array, and its \<^verbatim>\<open>@odata.nextLink\<close> becomes the link.
\<close>

datatype step_result = StepThrown | StepBreak | StepNext jsval jsval

definition walk_step :: "(jsval \<Rightarrow> fetch_result) \<Rightarrow> jsval \<Rightarrow> jsval \<Rightarrow> step_result" where
  "walk_step fetchNext allItems nextLink =
     (case fetchNext nextLink of
        FetchThrows \<Rightarrow> StepThrown
      | FetchEmpty \<Rightarrow> StepBreak
      | FetchPage nextJsonResponse \<Rightarrow>
          (case js_prop nextJsonResponse ''value'' of
             Inl e \<Rightarrow> StepThrown
           | Inr v \<Rightarrow>
               (case (case v of JArr ys \<Rightarrow> concat_items allItems ys | other \<Rightarrow> Inr allItems) of
                  Inl e \<Rightarrow> StepThrown
                | Inr allItems' \<Rightarrow> StepNext allItems' (member nextJsonResponse ''@odata.nextLink''))))"

text \<open>
  The \<^verbatim>\<open>while (nextLink)\<close> loop. Its state is \<^verbatim>\<open>allItems\<close>, \<^verbatim>\<open>nextLink\<close> and
  \<^verbatim>\<open>pageCount\<close>; the model also keeps the list of the links requested so far. The loop
  ends by an exception or by leaving the loop with the items and the page count.
\<close>

datatype walk_result = WalkThrown "jsval list" | WalkDone jsval nat "jsval list"

function walk ::
  "(jsval \<Rightarrow> fetch_result) \<Rightarrow> jsval \<Rightarrow> jsval \<Rightarrow> nat \<Rightarrow> jsval list \<Rightarrow> walk_result" where
  "walk fetchNext allItems nextLink pageCount requested =
     (if \<not> truthy nextLink then WalkDone allItems pageCount requested
      else case walk_step fetchNext allItems nextLink of
             StepThrown \<Rightarrow> WalkThrown (requested @ [nextLink])
           | StepBreak \<Rightarrow> WalkDone allItems pageCount (requested @ [nextLink])
           | StepNext allItems' nextLink' \<Rightarrow>
               if pageCount + 1 > 100
               then WalkDone allItems' (pageCount + 1) (requested @ [nextLink])
               else walk fetchNext allItems' nextLink' (pageCount + 1) (requested @ [nextLink]))"
  by pat_completeness auto
termination
  by (relation "measure (\<lambda>(f, a, l, pageCount, r). 101 - pageCount)") auto

declare walk.simps [simp del]

text \<open>
  Lines 323 to 329, on the parsed first page: an object gets the merged items, the count
  (when the count it has is truthy) and loses the link, and the result is the document of
  the text that \<^verbatim>\<open>JSON.stringify\<close> writes. Of a document read from JSON text this leaves
  out one thing only: a count that was set to \<^verbatim>\<open>undefined\<close>, the merged items having no
  length, is not written. A property stored on an array is not written either; storing
  one on a number, a boolean or a string raises in a module.
\<close>

fun finish :: "jsval \<Rightarrow> jsval \<Rightarrow> js_error + jsval" where
  "finish (JObj kvs) allItems =
     (let kvs1 = obj_set kvs ''value'' allItems;
          kvs2 = (if truthy (obj_get kvs1 ''@odata.count'')
                  then (case js_length allItems of
                          JUndefined \<Rightarrow> obj_delete kvs1 ''@odata.count''
                        | n \<Rightarrow> obj_set kvs1 ''@odata.count'' n)
                  else kvs1)
      in Inr (JObj (obj_delete kvs2 ''@odata.nextLink'')))"
| "finish (JArr xs) allItems = Inr (JArr xs)"
| "finish v allItems = Inl TypeError"

text \<open>
  The whole block, for a first answer whose text parsed to \<open>combinedResponse\<close>. Every
  exception is caught by the one \<^verbatim>\<open>catch\<close> around the block, which logs it; the text of
  the response is replaced only by the last statement of the \<^verbatim>\<open>try\<close>. \<open>Unchanged\<close>:
  the response still holds the first page as it was received. \<open>Combined\<close>: it holds the
  merged document. Both carry the links requested.
\<close>

datatype agg_result = Unchanged "jsval list" | Combined jsval "jsval list"

definition aggregateAllPages :: "jsval \<Rightarrow> (jsval \<Rightarrow> fetch_result) \<Rightarrow> agg_result" where
  "aggregateAllPages combinedResponse fetchNext =
     (case js_prop combinedResponse ''value'' of
        Inl e \<Rightarrow> Unchanged []
      | Inr v \<Rightarrow>
          (let allItems = (if truthy v then v else JArr []);
               nextLink = member combinedResponse ''@odata.nextLink''
           in case walk fetchNext allItems nextLink 1 [] of
                WalkThrown requested \<Rightarrow> Unchanged requested
              | WalkDone allItems' pageCount requested \<Rightarrow>
                  (case finish combinedResponse allItems' of
                     Inl e \<Rightarrow> Unchanged requested
                   | Inr merged \<Rightarrow> Combined merged requested)))"

text \<open>The document the caller gets, and the number of requests made.\<close>

fun response_after :: "jsval \<Rightarrow> agg_result \<Rightarrow> jsval" where
  "response_after first (Unchanged requested) = first"
| "response_after first (Combined merged requested) = merged"

fun requests_of :: "agg_result \<Rightarrow> jsval list" where
  "requests_of (Unchanged requested) = requested"
| "requests_of (Combined merged requested) = requested"

section \<open>Notions the claims are stated with\<close>

text \<open>
  A chain of pages behind a link: following the links from \<open>l\<close>, the requests answer with
  the pages \<open>ps\<close> in this order, and the link of the last page is the result.
\<close>

fun chain :: "(jsval \<Rightarrow> fetch_result) \<Rightarrow> jsval \<Rightarrow> jsval list \<Rightarrow> jsval option" where
  "chain fetchNext l [] = Some l"
| "chain fetchNext l (p # ps) =
     (if truthy l \<and> fetchNext l = FetchPage p
      then chain fetchNext (member p ''@odata.nextLink'') ps else None)"

text \<open>The links requested along a chain, and the items of a page.\<close>

fun chain_links :: "jsval \<Rightarrow> jsval list \<Rightarrow> jsval list" where
  "chain_links l [] = []"
| "chain_links l (p # ps) = l # chain_links (member p ''@odata.nextLink'') ps"

definition page_items :: "jsval \<Rightarrow> jsval list" where
  "page_items p = (case member p ''value'' of JArr ys \<Rightarrow> ys | other \<Rightarrow> [])"


text \<open>
  The content of a body before truncation: media removal, then the tags stripped where
  \<^verbatim>\<open>optimizeMessageBody\<close> decides so.
\<close>

definition content_before_truncation :: "OptimizationConfig \<Rightarrow> jsval \<Rightarrow> string \<Rightarrow> string" where
  "content_before_truncation config body s =
     (if strips config body (media_reduced config s)
      then stripHtmlTags (media_reduced config s) else media_reduced config s)"

text \<open>
  The flat pair a recipient entry is mapped to, the pair of two \<^verbatim>\<open>undefined\<close>, and the
  entities none of whose recipient lists holds \<^verbatim>\<open>null\<close> (on which the map raises).
\<close>

definition flat_pair :: "jsval \<Rightarrow> jsval" where
  "flat_pair r =
     JObj [(''name'', opt_member (member r ''emailAddress'') ''name''),
           (''address'', opt_member (member r ''emailAddress'') ''address'')]"

definition undefined_pair :: jsval where
  "undefined_pair = JObj [(''name'', JUndefined), (''address'', JUndefined)]"

definition recipient_fields :: "string list" where
  "recipient_fields = [''toRecipients'', ''ccRecipients'', ''bccRecipients'']"

fun entries_not_null :: "jsval \<Rightarrow> bool" where
  "entries_not_null (JArr rs) = list_all (\<lambda>r. \<not> nullish r) rs"
| "entries_not_null v = True"

definition recipients_not_null :: "obj \<Rightarrow> bool" where
  "recipients_not_null e = list_all (\<lambda>g. entries_not_null (obj_get e g)) recipient_fields"

fun recipients_image :: "jsval \<Rightarrow> jsval" where
  "recipients_image (JArr rs) = JArr (map flat_pair rs)"
| "recipients_image v = v"

text \<open>Transports and first pages of the examples.\<close>

definition page_2_then_t2 :: jsval where
  "page_2_then_t2 = JObj [(''value'', JArr [JNum 2]), (''@odata.nextLink'', JStr ''t2'')]"

definition fetch_page_then_throw :: "jsval \<Rightarrow> fetch_result" where
  "fetch_page_then_throw l = (if l = JStr ''t1'' then FetchPage page_2_then_t2 else FetchThrows)"



definition first_page_1_then_t1 :: jsval where
  "first_page_1_then_t1 = JObj [(''value'', JArr [JNum 1]), (''@odata.nextLink'', JStr ''t1'')]"

definition first_page_count_zero :: jsval where
  "first_page_count_zero =
     JObj [(''value'', JArr [JNum 1]), (''@odata.count'', JNum 0), (''@odata.nextLink'', JStr ''t1'')]"

definition fetch_last_page :: "jsval \<Rightarrow> fetch_result" where
  "fetch_last_page l =
     (if l = JStr ''t1'' then FetchPage (JObj [(''value'', JArr [JNum 2])]) else FetchThrows)"

definition page_again :: jsval where
  "page_again = JObj [(''value'', JArr [JNum 1]), (''@odata.nextLink'', JStr ''n'')]"

definition fetch_forever :: "jsval \<Rightarrow> fetch_result" where
  "fetch_forever l = FetchPage page_again"

definition first_page_0_then_n :: jsval where
  "first_page_0_then_n = JObj [(''value'', JArr [JNum 0]), (''@odata.nextLink'', JStr ''n'')]"

text \<open>
  Tag markup in a string: somewhere in it the expression \<^verbatim>\<open>/<[^>]*>/\<close> of the tag
  stripper still matches.
\<close>

fun has_tag :: "string \<Rightarrow> bool" where
  "has_tag [] = False"
| "has_tag (c # t) = (match_tag (c # t) \<noteq> None \<or> has_tag t)"

definition is_angle :: "char \<Rightarrow> bool" where
  "is_angle c \<longleftrightarrow> c = CHR ''<'' \<or> c = CHR ''>''"

text \<open>
  Two steps of \<^verbatim>\<open>stripHtmlTags\<close> by name: the replacement of \<^verbatim>\<open>/\n\s*\n/g\<close> by one
  empty line, and the right half of \<^verbatim>\<open>trim()\<close>.
\<close>

definition collapse :: "string \<Rightarrow> string" where
  "collapse s = replace_all match_blank [CHR 0x0A, CHR 0x0A] s"

definition rtrim :: "string \<Rightarrow> string" where
  "rtrim s = rev (dropWhile is_space (rev s))"

text \<open>An entity with a \<^verbatim>\<open>null\<close> entry in a recipient list.\<close>

definition entity_null_recipient :: jsval where
  "entity_null_recipient = JObj [(''id'', JStr ''m1''), (''toRecipients'', JArr [JNull])]"

text \<open>Bodies of the examples.\<close>

definition body_text_with_entity :: jsval where
  "body_text_with_entity = JObj [(''contentType'', JStr ''text''), (''content'', JStr ''a &amp; b'')]"

definition body_html_with_entities :: jsval where
  "body_html_with_entities = JObj [(''contentType'', JStr ''html''), (''content'', JStr ''&lt;b&gt;'')]"

definition body_html_paragraph :: jsval where
  "body_html_paragraph = JObj [(''contentType'', JStr ''html''), (''content'', JStr ''<p>Hi</p>'')]"

section \<open>Properties\<close>

subsection \<open>Objects\<close>

lemma obj_get_set: "obj_get (obj_set kvs k v) k' = (if k' = k then v else obj_get kvs k')"
  by (induction kvs) (auto simp: obj_get_def)

lemma obj_get_delete:
  "obj_get (obj_delete kvs k) k' = (if k' = k then JUndefined else obj_get kvs k')"
  by (induction kvs) (auto simp: obj_get_def obj_delete_def)

lemma member_JStr_obj: "member body k = JStr s \<Longrightarrow> \<exists>kvs. body = JObj kvs"
  by (cases body) auto

lemma member_JArr_obj: "member body k = JArr xs \<Longrightarrow> \<exists>kvs. body = JObj kvs"
  by (cases body) auto

subsection \<open>Body reducer\<close>

lemma body_content:
  assumes "member body ''content'' = JStr s"
  shows "member (optimizeMessageBody body config) ''content'' =
           JStr (if s = [] then s else truncated config (content_before_truncation config body s))"
proof -
  from assms obtain kvs where b: "body = JObj kvs" by (auto dest: member_JStr_obj)
  with assms show ?thesis
    by (simp add: optimizeMessageBody_def content_before_truncation_def Let_def obj_get_set)
qed

lemma truncated_length:
  assumes "0 \<le> maxHtmlContentSize config"
  shows "int (length (truncated config t)) \<le> maxHtmlContentSize config + 14"
  using assms by (auto simp: truncated_def substring0_def)

text \<open>
  Claim C5. For a body whose content is a string and a configuration with a positive
  \<^verbatim>\<open>maxHtmlContentSize\<close>, the content of the reduced body is a string of at most
  \<^verbatim>\<open>maxHtmlContentSize\<close> plus 14 characters, 14 being the length of the suffix
  \<^verbatim>\<open>...[TRUNCATED]\<close>; when the content before truncation is longer than the bound, the
  result is its first \<^verbatim>\<open>maxHtmlContentSize\<close> characters, exactly that many, followed by
  the suffix.
\<close>

theorem optimizeMessageBody_length_bound:
  assumes "member body ''content'' = JStr s" and "0 < maxHtmlContentSize config"
  shows "\<exists>t. member (optimizeMessageBody body config) ''content'' = JStr t \<and>
             int (length t) \<le> maxHtmlContentSize config + int (length ''...[TRUNCATED]'') \<and>
             length ''...[TRUNCATED]'' = 14 \<and>
             (s \<noteq> [] \<and> int (length (content_before_truncation config body s)) > maxHtmlContentSize config \<longrightarrow>
                t = take (nat (maxHtmlContentSize config)) (content_before_truncation config body s)
                      @ ''...[TRUNCATED]'' \<and>
                int (length (take (nat (maxHtmlContentSize config))
                       (content_before_truncation config body s))) = maxHtmlContentSize config)"
proof (cases "s = []")
  case True
  with assms show ?thesis by (simp add: body_content)
next
  case False
  let ?pre = "content_before_truncation config body s"
  have c: "member (optimizeMessageBody body config) ''content'' = JStr (truncated config ?pre)"
    using assms(1) False by (simp add: body_content)
  have l: "int (length (truncated config ?pre)) \<le> maxHtmlContentSize config + 14"
    using assms(2) by (simp add: truncated_length)
  have t: "int (length ?pre) > maxHtmlContentSize config \<Longrightarrow>
           truncated config ?pre = take (nat (maxHtmlContentSize config)) ?pre @ ''...[TRUNCATED]''"
    by (simp add: truncated_def substring0_def)
  have e: "int (length ?pre) > maxHtmlContentSize config \<Longrightarrow>
           int (length (take (nat (maxHtmlContentSize config)) ?pre)) = maxHtmlContentSize config"
    using assms(2) by simp
  from c l t e assms(2) show ?thesis by auto
qed

theorem optimizeMessageBody_length_bound_witness:
  "member (JObj [(''contentType'', JStr ''html''), (''content'', JStr ''<p>abcdef</p>'')]) ''content''
     = JStr ''<p>abcdef</p>'' \<and>
   0 < maxHtmlContentSize (DEFAULT_LLM_OPTIMIZATION\<lparr>maxHtmlContentSize := 3\<rparr>) \<and>
   member (optimizeMessageBody
             (JObj [(''contentType'', JStr ''html''), (''content'', JStr ''<p>abcdef</p>'')])
             (DEFAULT_LLM_OPTIMIZATION\<lparr>maxHtmlContentSize := 3\<rparr>)) ''content''
     = JStr ''abc...[TRUNCATED]''"
  using optimizeMessageBody_length_bound
    [of "JObj [(''contentType'', JStr ''html''), (''content'', JStr ''<p>abcdef</p>'')]"
        "''<p>abcdef</p>''" "DEFAULT_LLM_OPTIMIZATION\<lparr>maxHtmlContentSize := 3\<rparr>"]
  by (simp add: obj_get_def DEFAULT_LLM_OPTIMIZATION_def content_before_truncation_def
      strips_def media_reduced_def removeEmbeddedImages_def removeInlineAttachments_def
      match_img_def lower_ascii_def stripHtmlTags_def match_br_def match_lit_ci_def match_lit_def
      trim_def is_space_def)

subsection \<open>Collection reducer\<close>




lemma optimizeMailCollection_value:
  assumes "member page ''value'' = JArr items"
  shows "optimizeMailCollection page config =
     (let kept = (if int (length items) > maxItemsInCollection config
                  then slice0 items (maxItemsInCollection config) else items)
      in case map_throw (\<lambda>message. optimizeMailMessage message config) kept of
           Inl e \<Rightarrow> Inl e
         | Inr vs \<Rightarrow>
             Inr (JObj (let o1 = obj_set (spread page) ''value'' (JArr vs)
                        in if truthy (obj_get o1 ''@odata.count'')
                           then obj_set o1 ''@odata.count'' (JNum (int (length vs))) else o1)))"
proof -
  from assms obtain kvs where "page = JObj kvs" by (auto dest: member_JArr_obj)
  with assms show ?thesis
    by (simp add: optimizeMailCollection_def Let_def split: sum.splits)
qed



lemma optimizeMailCollection_count_truthy:
  assumes "member page ''value'' = JArr items" and "truthy (member page ''@odata.count'')"
    and "optimizeMailCollection page config = Inr r"
  shows "\<exists>vs. member r ''value'' = JArr vs \<and> member r ''@odata.count'' = JNum (int (length vs))"
proof -
  from assms(1) obtain kvs where p: "page = JObj kvs" by (auto dest: member_JArr_obj)
  from assms p show ?thesis
    by (auto simp: optimizeMailCollection_value Let_def obj_get_set split: sum.splits)
qed

text \<open>
  Claim C7. The count of a reduced page is meant to be the number of items returned
  whenever a count is present. The code tests the count for truthiness: a count of 0 on a
  page with one item stays 0.
\<close>

theorem optimizeMailCollection_count_zero:
  "optimizeMailCollection
     (JObj [(''value'', JArr [JObj [(''id'', JStr ''m1'')]]), (''@odata.count'', JNum 0)])
     DEFAULT_LLM_OPTIMIZATION
   = Inr (JObj [(''value'', JArr [JObj [(''id'', JStr ''m1'')]]), (''@odata.count'', JNum 0)])"
  by (simp add: optimizeMailCollection_def optimizeMailMessage_def removed_fields_def obj_get_def
        obj_delete_def simplify_recipients_def simplify_sender_def opt_member_def
        DEFAULT_LLM_OPTIMIZATION_def)

theorem optimizeMailCollection_count_zero_witness:
  "(case optimizeMailCollection
           (JObj [(''value'', JArr [JObj [(''id'', JStr ''m1'')]]), (''@odata.count'', JNum 0)])
           DEFAULT_LLM_OPTIMIZATION of
      Inl e \<Rightarrow> False
    | Inr r \<Rightarrow> member r ''@odata.count'' = JNum 0 \<and> page_items r = [JObj [(''id'', JStr ''m1'')]])"
  using optimizeMailCollection_count_zero by (simp add: obj_get_def page_items_def)

subsection \<open>Entity reducer\<close>

lemma flatten_recipient_ok: "\<not> nullish r \<Longrightarrow> flatten_recipient r = Inr (flat_pair r)"
  by (simp add: flatten_recipient_def js_prop_def flat_pair_def)

lemma map_flatten_ok:
  "list_all (\<lambda>r. \<not> nullish r) rs \<Longrightarrow> map_throw flatten_recipient rs = Inr (map flat_pair rs)"
  by (induction rs) (auto simp: flatten_recipient_ok)

lemma simplify_recipients_ok:
  assumes "entries_not_null (obj_get e g)"
  shows "\<exists>e'. simplify_recipients g e = Inr e' \<and>
           (\<forall>k. obj_get e' k = (if k = g then recipients_image (obj_get e g) else obj_get e k))"
  using assms
  by (cases "obj_get e g") (auto simp: simplify_recipients_def map_flatten_ok obj_get_set)

lemma simplify_sender_other:
  "k \<noteq> g \<Longrightarrow> obj_get (simplify_sender g e) k = obj_get e k"
  by (simp add: simplify_sender_def Let_def obj_get_set)

lemma removed_other:
  "k \<notin> set removed_fields \<Longrightarrow> obj_get (fold (\<lambda>k ob. obj_delete ob k) removed_fields e) k = obj_get e k"
  by (simp add: removed_fields_def obj_get_delete)

lemma recipient_field_cases:
  "g \<in> set recipient_fields \<Longrightarrow> g = ''toRecipients'' \<or> g = ''ccRecipients'' \<or> g = ''bccRecipients''"
  by (simp add: recipient_fields_def)

lemma recipient_field_kept:
  assumes "g \<in> set recipient_fields"
  shows "g \<notin> set removed_fields" and "g \<noteq> ''body''" and "g \<noteq> ''sender''" and "g \<noteq> ''from''"
  using recipient_field_cases [OF assms] by (auto simp: removed_fields_def)

lemma optimizeMailMessage_recipients:
  assumes "recipients_not_null e"
  shows "\<exists>e'. optimizeMailMessage (JObj e) config = Inr (JObj e') \<and>
           (\<forall>g \<in> set recipient_fields. obj_get e' g = recipients_image (obj_get e g))"
proof -
  define e1 where "e1 =
     (if truthy (obj_get e ''body'')
      then obj_set e ''body'' (optimizeMessageBody (obj_get e ''body'') config) else e)"
  define e2 where "e2 = fold (\<lambda>k ob. obj_delete ob k) removed_fields e1"
  have g1: "obj_get e1 g = obj_get e g" if "g \<in> set recipient_fields" for g
    using recipient_field_kept(2) [OF that] by (simp add: e1_def obj_get_set)
  have g2: "obj_get e2 g = obj_get e g" if "g \<in> set recipient_fields" for g
    using recipient_field_kept(1) [OF that] g1 [OF that] by (simp add: e2_def removed_other)
  have t: "''toRecipients'' \<in> set recipient_fields" and c: "''ccRecipients'' \<in> set recipient_fields"
    and bc: "''bccRecipients'' \<in> set recipient_fields"
    by (simp_all add: recipient_fields_def)
  from assms have n: "entries_not_null (obj_get e ''toRecipients'')"
      "entries_not_null (obj_get e ''ccRecipients'')"
      "entries_not_null (obj_get e ''bccRecipients'')"
    by (simp_all add: recipients_not_null_def recipient_fields_def)
  from n(1) have "entries_not_null (obj_get e2 ''toRecipients'')"
    by (simp add: g2 [OF t])
  then obtain a where a1: "simplify_recipients ''toRecipients'' e2 = Inr a"
    and a2: "\<And>k. obj_get a k =
      (if k = ''toRecipients'' then recipients_image (obj_get e2 ''toRecipients'') else obj_get e2 k)"
    using simplify_recipients_ok by blast
  from n(2) have "entries_not_null (obj_get a ''ccRecipients'')"
    by (simp add: a2 g2 [OF c])
  then obtain b where b1: "simplify_recipients ''ccRecipients'' a = Inr b"
    and b2: "\<And>k. obj_get b k =
      (if k = ''ccRecipients'' then recipients_image (obj_get a ''ccRecipients'') else obj_get a k)"
    using simplify_recipients_ok by blast
  from n(3) have "entries_not_null (obj_get b ''bccRecipients'')"
    by (simp add: b2 a2 g2 [OF bc])
  then obtain d where d1: "simplify_recipients ''bccRecipients'' b = Inr d"
    and d2: "\<And>k. obj_get d k =
      (if k = ''bccRecipients'' then recipients_image (obj_get b ''bccRecipients'') else obj_get b k)"
    using simplify_recipients_ok by blast
  let ?e' = "fold simplify_sender [''sender'', ''from''] d"
  have f: "for_each_throw simplify_recipients
             [''toRecipients'', ''ccRecipients'', ''bccRecipients''] e2 = Inr d"
    by (simp add: a1 b1 d1)
  have "optimizeMailMessage (JObj e) config =
          (case for_each_throw simplify_recipients
                  [''toRecipients'', ''ccRecipients'', ''bccRecipients''] e2 of
             Inl x \<Rightarrow> Inl x
           | Inr optimized3 \<Rightarrow> Inr (JObj (fold simplify_sender [''sender'', ''from''] optimized3)))"
    by (simp add: optimizeMailMessage_def Let_def e1_def e2_def
          del: for_each_throw.simps fold_simps)
  then have r: "optimizeMailMessage (JObj e) config = Inr (JObj ?e')"
    by (simp only: f sum.case)
  have "obj_get ?e' g = recipients_image (obj_get e g)" if "g \<in> set recipient_fields" for g
  proof -
    have "obj_get ?e' g = obj_get d g"
      using recipient_field_kept(3,4) [OF that] by (simp add: simplify_sender_other)
    also have "obj_get d g = recipients_image (obj_get e g)"
      using recipient_field_cases [OF that] by (auto simp: d2 b2 a2 g2 [OF t] g2 [OF c] g2 [OF bc])
    finally show ?thesis .
  qed
  with r show ?thesis by blast
qed

lemma flat_pair_twice: "flat_pair (flat_pair r) = undefined_pair"
  by (simp add: flat_pair_def undefined_pair_def obj_get_def opt_member_def)

lemma flat_pair_no_wrapper:
  "nullish (member r ''emailAddress'') \<Longrightarrow> flat_pair r = undefined_pair"
  by (simp add: flat_pair_def undefined_pair_def opt_member_def)

lemma recipients_not_null_image:
  assumes "\<forall>g \<in> set recipient_fields. obj_get e' g = recipients_image (obj_get e g)"
  shows "recipients_not_null e'"
proof -
  have "entries_not_null (recipients_image v)" for v
    by (cases v) (auto simp: list_all_iff flat_pair_def)
  with assms show ?thesis
    by (simp add: recipients_not_null_def list_all_iff)
qed

text \<open>
  Claim C10, as the code has it. The map over a recipient list reads
  \<^verbatim>\<open>recipient.emailAddress\<close> without a guard, so it raises on a \<^verbatim>\<open>null\<close> entry. For an
  entity none of whose recipient lists holds a \<^verbatim>\<open>null\<close> entry and with a recipient field
  that is a list, the entity reducer replaces this list by the list of the flat pairs
  of its entries, name and address read from the \<^verbatim>\<open>emailAddress\<close> wrapper of the entry.
  An entry without the wrapper becomes the pair of two \<^verbatim>\<open>undefined\<close>, and so does every
  flat pair: reducing the reduced entity gives only such pairs, and the second result
  differs from the first as soon as one flat pair had a name or an address.
\<close>

theorem optimizeMailMessage_flattens_recipients:
  assumes "field \<in> set recipient_fields" and "obj_get e field = JArr rs"
    and "recipients_not_null e"
  shows "\<exists>e' e''.
           optimizeMailMessage (JObj e) config = Inr (JObj e') \<and>
           obj_get e' field = JArr (map flat_pair rs) \<and>
           (\<forall>r \<in> set rs. nullish (member r ''emailAddress'') \<longrightarrow> flat_pair r = undefined_pair) \<and>
           (\<forall>r \<in> set rs. flat_pair (flat_pair r) = undefined_pair) \<and>
           optimizeMailMessage (JObj e') config = Inr (JObj e'') \<and>
           obj_get e'' field = JArr (map (\<lambda>r. undefined_pair) rs) \<and>
           ((\<exists>r \<in> set rs. flat_pair r \<noteq> undefined_pair) \<longrightarrow> e'' \<noteq> e')"
proof -
  from assms(3) obtain e' where 1: "optimizeMailMessage (JObj e) config = Inr (JObj e')"
    "\<forall>g \<in> set recipient_fields. obj_get e' g = recipients_image (obj_get e g)"
    using optimizeMailMessage_recipients by blast
  from 1(2) have "recipients_not_null e'" by (rule recipients_not_null_image)
  then obtain e'' where 2: "optimizeMailMessage (JObj e') config = Inr (JObj e'')"
    "\<forall>g \<in> set recipient_fields. obj_get e'' g = recipients_image (obj_get e' g)"
    using optimizeMailMessage_recipients by blast
  from 1(2) assms(1,2) have f1: "obj_get e' field = JArr (map flat_pair rs)" by simp
  with 2(2) assms(1) have f2: "obj_get e'' field = JArr (map (\<lambda>r. undefined_pair) rs)"
    by (simp add: flat_pair_twice)
  have ne: "e'' \<noteq> e'" if "\<exists>r \<in> set rs. flat_pair r \<noteq> undefined_pair"
  proof
    assume "e'' = e'"
    with f1 f2 have "map flat_pair rs = map (\<lambda>r. undefined_pair) rs" by simp
    then have "\<forall>r \<in> set rs. flat_pair r = undefined_pair" by simp
    with that show False by blast
  qed
  from 1(1) 2(1) f1 f2 ne show ?thesis
    by (auto simp: flat_pair_twice flat_pair_no_wrapper)
qed

theorem optimizeMailMessage_flattens_recipients_witness:
  "''toRecipients'' \<in> set recipient_fields \<and>
   obj_get [(''toRecipients'',
             JArr [JObj [(''emailAddress'', JObj [(''name'', JStr ''A''), (''address'', JStr ''a@x'')])]])]
      ''toRecipients''
     = JArr [JObj [(''emailAddress'', JObj [(''name'', JStr ''A''), (''address'', JStr ''a@x'')])]] \<and>
   recipients_not_null
     [(''toRecipients'',
       JArr [JObj [(''emailAddress'', JObj [(''name'', JStr ''A''), (''address'', JStr ''a@x'')])]])] \<and>
   optimizeMailMessage
     (JObj [(''toRecipients'',
             JArr [JObj [(''emailAddress'', JObj [(''name'', JStr ''A''), (''address'', JStr ''a@x'')])]])])
     DEFAULT_LLM_OPTIMIZATION
     = Inr (JObj [(''toRecipients'', JArr [JObj [(''name'', JStr ''A''), (''address'', JStr ''a@x'')]])]) \<and>
   optimizeMailMessage
     (JObj [(''toRecipients'', JArr [JObj [(''name'', JStr ''A''), (''address'', JStr ''a@x'')]])])
     DEFAULT_LLM_OPTIMIZATION
     = Inr (JObj [(''toRecipients'', JArr [JObj [(''name'', JUndefined), (''address'', JUndefined)]])])"
  using optimizeMailMessage_flattens_recipients
    [of "''toRecipients''"
        "[(''toRecipients'',
           JArr [JObj [(''emailAddress'', JObj [(''name'', JStr ''A''), (''address'', JStr ''a@x'')])]])]"
        "[JObj [(''emailAddress'', JObj [(''name'', JStr ''A''), (''address'', JStr ''a@x'')])]]"
        DEFAULT_LLM_OPTIMIZATION]
  by (simp add: recipient_fields_def recipients_not_null_def obj_get_def optimizeMailMessage_def
        removed_fields_def obj_delete_def simplify_recipients_def simplify_sender_def
        opt_member_def flatten_recipient_def js_prop_def)

text \<open>
  The example: the recipient list of the entity is a list, its one entry is \<^verbatim>\<open>null\<close>, and
  the entity reducer raises instead of rewriting the entry.
\<close>

theorem optimizeMailMessage_null_recipient_counterexample:
  "member entity_null_recipient ''toRecipients'' = JArr [JNull] \<and>
   optimizeMailMessage entity_null_recipient DEFAULT_LLM_OPTIMIZATION = Inl TypeError"
  by (simp add: entity_null_recipient_def optimizeMailMessage_def removed_fields_def obj_get_def
        obj_delete_def simplify_recipients_def flatten_recipient_def js_prop_def)

subsection \<open>Page walker\<close>

lemma walk_step_page:
  assumes "fetchNext l = FetchPage p" and "\<not> nullish p"
  shows "walk_step fetchNext (JArr xs) l = StepNext (JArr (xs @ page_items p)) (member p ''@odata.nextLink'')"
  using assms by (cases "member p ''value''") (simp_all add: walk_step_def js_prop_def page_items_def)


lemma walk_chain:
  assumes "chain fetchNext l ps = Some l'" and "\<forall>p \<in> set ps. \<not> nullish p"
    and "pageCount + length ps \<le> 100"
  shows "walk fetchNext (JArr xs) l pageCount requested =
         walk fetchNext (JArr (xs @ concat (map page_items ps))) l' (pageCount + length ps)
           (requested @ chain_links l ps)"
  using assms
proof (induction ps arbitrary: l xs pageCount requested)
  case Nil
  then show ?case by simp
next
  case (Cons p ps)
  from Cons.prems(1) have t: "truthy l" and f: "fetchNext l = FetchPage p"
    and c: "chain fetchNext (member p ''@odata.nextLink'') ps = Some l'"
    by (simp_all split: if_splits)
  from Cons.prems(2) have n: "\<not> nullish p" and ns: "\<forall>p \<in> set ps. \<not> nullish p" by simp_all
  from Cons.prems(3) have b: "\<not> pageCount + 1 > 100" and bs: "(pageCount + 1) + length ps \<le> 100"
    by simp_all
  have "walk fetchNext (JArr xs) l pageCount requested =
        walk fetchNext (JArr (xs @ page_items p)) (member p ''@odata.nextLink'') (pageCount + 1)
          (requested @ [l])"
    using t b by (subst walk.simps) (simp add: walk_step_page [of fetchNext l p, OF f n])
  also have "\<dots> = walk fetchNext (JArr ((xs @ page_items p) @ concat (map page_items ps))) l'
                     ((pageCount + 1) + length ps) ((requested @ [l]) @ chain_links (member p ''@odata.nextLink'') ps)"
    by (rule Cons.IH [OF c ns bs])
  finally show ?case by simp
qed

lemma walk_done: "\<not> truthy l \<Longrightarrow> walk fetchNext a l pageCount requested = WalkDone a pageCount requested"
  by (subst walk.simps) simp

lemma walk_throws:
  "truthy l \<Longrightarrow> fetchNext l = FetchThrows \<Longrightarrow>
   walk fetchNext a l pageCount requested = WalkThrown (requested @ [l])"
  by (subst walk.simps) (simp add: walk_step_def)

lemma walk_empty:
  "truthy l \<Longrightarrow> fetchNext l = FetchEmpty \<Longrightarrow>
   walk fetchNext a l pageCount requested = WalkDone a pageCount (requested @ [l])"
  by (subst walk.simps) (simp add: walk_step_def)

lemma walk_bound:
  assumes "truthy l" and "fetchNext l = FetchPage p" and "\<not> nullish p"
  shows "walk fetchNext (JArr xs) l 100 requested = WalkDone (JArr (xs @ page_items p)) 101 (requested @ [l])"
  using assms(1) by (subst walk.simps) (simp add: walk_step_page [of fetchNext l p, OF assms(2,3)])

lemma chain_append:
  "chain fetchNext l (ps @ [p]) = Some l' \<longleftrightarrow>
   (\<exists>m. chain fetchNext l ps = Some m \<and> truthy m \<and> fetchNext m = FetchPage p \<and>
        l' = member p ''@odata.nextLink'')"
  by (induction ps arbitrary: l) auto

lemma chain_links_append:
  "chain fetchNext l ps = Some m \<Longrightarrow> chain_links l (ps @ [p]) = chain_links l ps @ [m]"
  by (induction ps arbitrary: l) (auto split: if_splits)

lemma length_chain_links: "length (chain_links l ps) = length ps"
  by (induction ps arbitrary: l) auto

text \<open>A chain of 100 fetched pages: the bound stops the walk after the hundredth request.\<close>

lemma walk_hundred:
  assumes "chain fetchNext l ps = Some l'" and "\<forall>p \<in> set ps. \<not> nullish p" and "length ps = 100"
  shows "walk fetchNext (JArr xs) l 1 [] =
         WalkDone (JArr (xs @ concat (map page_items ps))) 101 (chain_links l ps)"
proof -
  from assms(3) obtain qs p where ps: "ps = qs @ [p]" and lq: "length qs = 99"
    by (cases ps rule: rev_cases) auto
  from assms(1) ps obtain m where m: "chain fetchNext l qs = Some m" "truthy m"
    "fetchNext m = FetchPage p"
    by (auto simp: chain_append)
  from assms(2) ps have n: "\<forall>p \<in> set qs. \<not> nullish p" "\<not> nullish p" by simp_all
  have "walk fetchNext (JArr xs) l 1 [] =
        walk fetchNext (JArr (xs @ concat (map page_items qs))) m (1 + length qs) ([] @ chain_links l qs)"
    using lq by (intro walk_chain [OF m(1) n(1)]) simp
  also have "\<dots> = WalkDone (JArr ((xs @ concat (map page_items qs)) @ page_items p)) 101
                     (chain_links l qs @ [m])"
    using lq walk_bound [of m fetchNext p, OF m(2,3) n(2)] by simp
  finally show ?thesis using ps chain_links_append [OF m(1)] by simp
qed

lemma aggregate_unfold:
  assumes "member first ''value'' = JArr xs"
  shows "aggregateAllPages first fetchNext =
     (case walk fetchNext (JArr xs) (member first ''@odata.nextLink'') 1 [] of
        WalkThrown requested \<Rightarrow> Unchanged requested
      | WalkDone allItems' pageCount requested \<Rightarrow>
          (case finish first allItems' of
             Inl e \<Rightarrow> Unchanged requested
           | Inr merged \<Rightarrow> Combined merged requested))"
proof -
  from assms obtain kvs where k: "first = JObj kvs" by (auto dest: member_JArr_obj)
  from assms show ?thesis unfolding k by (simp add: aggregateAllPages_def js_prop_def)
qed

lemma aggregateAllPages_finite_chain:
  assumes "member first ''value'' = JArr xs"
    and "chain fetchNext (member first ''@odata.nextLink'') ps = Some l"
    and "\<forall>p \<in> set ps. \<not> nullish p" and "length ps < 100" and "\<not> truthy l"
  shows "\<exists>merged.
           aggregateAllPages first fetchNext =
             Combined (JObj merged) (chain_links (member first ''@odata.nextLink'') ps) \<and>
           obj_get merged ''value'' = JArr (xs @ concat (map page_items ps)) \<and>
           obj_get merged ''@odata.nextLink'' = JUndefined \<and>
           (truthy (member first ''@odata.count'') \<longrightarrow>
              obj_get merged ''@odata.count'' = JNum (int (length (xs @ concat (map page_items ps)))))"
proof -
  from assms(1) obtain kvs where k: "first = JObj kvs" by (auto dest: member_JArr_obj)
  have "walk fetchNext (JArr xs) (member first ''@odata.nextLink'') 1 [] =
        walk fetchNext (JArr (xs @ concat (map page_items ps))) l (1 + length ps)
          ([] @ chain_links (member first ''@odata.nextLink'') ps)"
    using assms(4) by (intro walk_chain [OF assms(2,3)]) simp
  also have "\<dots> = WalkDone (JArr (xs @ concat (map page_items ps))) (1 + length ps)
                     (chain_links (member first ''@odata.nextLink'') ps)"
    using assms(5) by (simp add: walk_done)
  finally have agg: "aggregateAllPages first fetchNext =
      (case finish first (JArr (xs @ concat (map page_items ps))) of
         Inl e \<Rightarrow> Unchanged (chain_links (member first ''@odata.nextLink'') ps)
       | Inr merged \<Rightarrow> Combined merged (chain_links (member first ''@odata.nextLink'') ps))"
    by (simp add: aggregate_unfold [OF assms(1)])
  define merged where "merged =
     obj_delete
       (if truthy (obj_get kvs ''@odata.count'')
        then obj_set (obj_set kvs ''value'' (JArr (xs @ concat (map page_items ps)))) ''@odata.count''
               (JNum (int (length (xs @ concat (map page_items ps)))))
        else obj_set kvs ''value'' (JArr (xs @ concat (map page_items ps))))
       ''@odata.nextLink''"
  have fin: "finish first (JArr (xs @ concat (map page_items ps))) = Inr (JObj merged)"
    unfolding k merged_def by (simp add: Let_def obj_get_set)
  have "obj_get merged ''value'' = JArr (xs @ concat (map page_items ps))"
    and "obj_get merged ''@odata.nextLink'' = JUndefined"
    and "truthy (member first ''@odata.count'') \<longrightarrow>
           obj_get merged ''@odata.count'' = JNum (int (length (xs @ concat (map page_items ps))))"
    unfolding k merged_def by (simp_all add: obj_get_set obj_get_delete)
  with agg fin show ?thesis by simp
qed

text \<open>
  Claim C1, as the code has it. When a request raises after the pages \<open>ps\<close> of a chain
  have been fetched and merged (fewer than 100 of them, so that the bound has not ended the
  walk), the walk stops at once: the failed request is the last one. The exception leaves
  the \<^verbatim>\<open>try\<close> block before the response is rewritten, so the response stays the first
  page as it was received, with its own items and link; the pages merged so far are
  dropped.
\<close>

theorem aggregateAllPages_error_keeps_first_page:
  assumes "member first ''value'' = JArr xs"
    and "chain fetchNext (member first ''@odata.nextLink'') ps = Some l"
    and "\<forall>p \<in> set ps. \<not> nullish p" and "length ps < 100"
    and "truthy l" and "fetchNext l = FetchThrows"
  shows "aggregateAllPages first fetchNext =
           Unchanged (chain_links (member first ''@odata.nextLink'') ps @ [l]) \<and>
         response_after first (aggregateAllPages first fetchNext) = first"
proof -
  have "walk fetchNext (JArr xs) (member first ''@odata.nextLink'') 1 [] =
        walk fetchNext (JArr (xs @ concat (map page_items ps))) l (1 + length ps)
          ([] @ chain_links (member first ''@odata.nextLink'') ps)"
    using assms(4) by (intro walk_chain [OF assms(2,3)]) simp
  also have "\<dots> = WalkThrown (chain_links (member first ''@odata.nextLink'') ps @ [l])"
    using assms(5,6) by (simp add: walk_throws)
  finally show ?thesis
    by (simp add: aggregate_unfold [OF assms(1)])
qed

theorem aggregateAllPages_error_keeps_first_page_witness:
  "member first_page_1_then_t1 ''value'' = JArr [JNum 1] \<and>
   chain fetch_page_then_throw (member first_page_1_then_t1 ''@odata.nextLink'') [page_2_then_t2]
     = Some (JStr ''t2'') \<and>
   \<not> nullish page_2_then_t2 \<and> length [page_2_then_t2] < 100 \<and>
   truthy (JStr ''t2'') \<and> fetch_page_then_throw (JStr ''t2'') = FetchThrows \<and>
   aggregateAllPages first_page_1_then_t1 fetch_page_then_throw = Unchanged [JStr ''t1'', JStr ''t2'']"
  using aggregateAllPages_error_keeps_first_page
    [of first_page_1_then_t1 "[JNum 1]" fetch_page_then_throw "[page_2_then_t2]" "JStr ''t2''"]
  by (simp add: first_page_1_then_t1_def fetch_page_then_throw_def page_2_then_t2_def obj_get_def)

text \<open>
  The example: the first page holds item 1 and a link, the first request answers with
  item 2 and a second link, the second request raises. Two requests are made, and the
  response holds item 1 only and still carries the first link.
\<close>

theorem aggregateAllPages_error_counterexample:
  "fetch_page_then_throw (JStr ''t1'') = FetchPage page_2_then_t2 \<and>
   page_items page_2_then_t2 = [JNum 2] \<and>
   fetch_page_then_throw (JStr ''t2'') = FetchThrows \<and>
   requests_of (aggregateAllPages first_page_1_then_t1 fetch_page_then_throw)
     = [JStr ''t1'', JStr ''t2''] \<and>
   page_items (response_after first_page_1_then_t1
                 (aggregateAllPages first_page_1_then_t1 fetch_page_then_throw)) = [JNum 1] \<and>
   member (response_after first_page_1_then_t1
                 (aggregateAllPages first_page_1_then_t1 fetch_page_then_throw)) ''@odata.nextLink''
     = JStr ''t1''"
  by (simp add: aggregateAllPages_def walk.simps walk_step_def js_prop_def page_items_def
        first_page_1_then_t1_def fetch_page_then_throw_def page_2_then_t2_def obj_get_def)

lemma chain_forever: "chain fetch_forever (JStr ''n'') (replicate k page_again) = Some (JStr ''n'')"
  by (induction k) (simp_all add: fetch_forever_def page_again_def obj_get_def)

lemma chain_links_forever: "chain_links (JStr ''n'') (replicate k page_again) = replicate k (JStr ''n'')"
  by (induction k) (simp_all add: page_again_def obj_get_def)

lemma items_forever: "concat (map page_items (replicate k page_again)) = replicate k (JNum 1)"
  by (induction k) (simp_all add: page_again_def page_items_def obj_get_def)

text \<open>
  Claim C3. Every page carries a link and one item. The walk makes 100 requests and stops
  with \<^verbatim>\<open>pageCount\<close> at 101: the test \<^verbatim>\<open>pageCount > 100\<close> comes after the items of the
  page were appended, so the result holds the items of 101 pages, the first page and the
  100 fetched ones, one page more than the limit of 100 pages the warning of the code names.
\<close>

theorem aggregateAllPages_unbounded_chain:
  "aggregateAllPages first_page_0_then_n fetch_forever =
     Combined (JObj [(''value'', JArr (JNum 0 # replicate 100 (JNum 1)))]) (replicate 100 (JStr ''n''))"
proof -
  have v: "member first_page_0_then_n ''value'' = JArr [JNum 0]"
    and l: "member first_page_0_then_n ''@odata.nextLink'' = JStr ''n''"
    by (simp_all add: first_page_0_then_n_def obj_get_def)
  have n: "\<forall>p \<in> set (replicate 100 page_again). \<not> nullish p"
    by (simp add: page_again_def)
  have "walk fetch_forever (JArr [JNum 0]) (JStr ''n'') 1 [] =
        WalkDone (JArr ([JNum 0] @ concat (map page_items (replicate 100 page_again)))) 101
          (chain_links (JStr ''n'') (replicate 100 page_again))"
    by (rule walk_hundred [OF chain_forever n]) simp
  then have w: "walk fetch_forever (JArr [JNum 0]) (JStr ''n'') 1 [] =
        WalkDone (JArr (JNum 0 # replicate 100 (JNum 1))) 101 (replicate 100 (JStr ''n''))"
    by (simp only: items_forever chain_links_forever append_Cons append_Nil)
  have "finish first_page_0_then_n (JArr (JNum 0 # replicate 100 (JNum 1))) =
          Inr (JObj [(''value'', JArr (JNum 0 # replicate 100 (JNum 1)))])"
    by (simp add: first_page_0_then_n_def obj_get_def obj_delete_def)
  with w show ?thesis
    by (simp add: aggregate_unfold [OF v] l)
qed

theorem aggregateAllPages_unbounded_chain_witness:
  "length (requests_of (aggregateAllPages first_page_0_then_n fetch_forever)) = 100 \<and>
   length (page_items (response_after first_page_0_then_n
             (aggregateAllPages first_page_0_then_n fetch_forever))) = 101"
  using aggregateAllPages_unbounded_chain by (simp add: page_items_def obj_get_def)

text \<open>
  Claim C4. For a finite chain the merged document holds the items of all pages in order
  and no link, and its count is the number of merged items when the count of the first
  page is truthy (\<open>aggregateAllPages_finite_chain\<close>). A count that is present with the
  value 0 is not updated: here two items are merged and the count stays 0.
\<close>

theorem aggregateAllPages_count_zero:
  "aggregateAllPages first_page_count_zero fetch_last_page =
     Combined (JObj [(''value'', JArr [JNum 1, JNum 2]), (''@odata.count'', JNum 0)]) [JStr ''t1'']"
  by (simp add: aggregateAllPages_def walk.simps walk_step_def js_prop_def
        first_page_count_zero_def fetch_last_page_def obj_get_def obj_delete_def)

theorem aggregateAllPages_count_zero_witness:
  "member (response_after first_page_count_zero
             (aggregateAllPages first_page_count_zero fetch_last_page)) ''@odata.count'' = JNum 0 \<and>
   length (page_items (response_after first_page_count_zero
             (aggregateAllPages first_page_count_zero fetch_last_page))) = 2"
  using aggregateAllPages_count_zero by (simp add: page_items_def obj_get_def)




subsection \<open>Global replacement\<close>

lemma set_replace_all: "set (replace_all m r s) \<subseteq> set s \<union> set r"
proof (induction m r s rule: replace_all.induct)
  case (1 m r)
  then show ?case by simp
next
  case (2 m r x xs)
  show ?case
  proof (cases "m (x # xs)")
    case None
    with 2 show ?thesis by auto
  next
    case (Some n)
    with 2 have "set (replace_all m r (drop (n - 1) xs)) \<subseteq> set (drop (n - 1) xs) \<union> set r"
      by simp
    moreover have "set (drop (n - 1) xs) \<subseteq> set xs" by (rule set_drop_subset)
    ultimately show ?thesis using Some by auto
  qed
qed

lemma replace_all_absent:
  assumes "c \<notin> set s" and "c \<notin> set r"
  shows "c \<notin> set (replace_all m r s)"
  using assms set_replace_all [of m r s] by auto

lemma replace_all_no_match:
  assumes "\<And>t. m t \<noteq> None \<Longrightarrow> t \<noteq> [] \<and> hd t = c" and "c \<notin> set s"
  shows "replace_all m r s = s"
  using assms(2)
proof (induction s)
  case Nil
  then show ?case by simp
next
  case (Cons x xs)
  have "m (x # xs) = None"
  proof (rule ccontr)
    assume "m (x # xs) \<noteq> None"
    then have "hd (x # xs) = c" using assms(1) by blast
    with Cons.prems show False by simp
  qed
  with Cons show ?case by simp
qed

lemma filter_replace_all:
  assumes "\<And>t n. m t = Some n \<Longrightarrow> 0 < n \<and> filter Q (take n t) = []" and "filter Q r = []"
  shows "filter Q (replace_all m r s) = filter Q s"
proof (induction "length s" arbitrary: s rule: less_induct)
  case less
  show ?case
  proof (cases s)
    case Nil
    then show ?thesis by simp
  next
    case (Cons x xs)
    show ?thesis
    proof (cases "m (x # xs)")
      case None
      with Cons less [of xs] show ?thesis by simp
    next
      case (Some n)
      then have n: "0 < n" and f: "filter Q (take n (x # xs)) = []" using assms(1) by blast+
      have "filter Q (replace_all m r (drop (n - 1) xs)) = filter Q (drop (n - 1) xs)"
        using Cons by (intro less) simp
      moreover have "drop n (x # xs) = drop (n - 1) xs" using n by (cases n) simp_all
      moreover have "filter Q (x # xs) = filter Q (take n (x # xs)) @ filter Q (drop n (x # xs))"
        by (simp only: filter_append [symmetric] append_take_drop_id)
      ultimately show ?thesis using Cons Some f assms(2) by simp
    qed
  qed
qed

subsection \<open>Tag markup\<close>

lemma has_tag_filter: "has_tag (filter is_angle s) = has_tag s"
proof (induction s)
  case Nil
  then show ?case by simp
next
  case (Cons c t)
  have "CHR ''>'' \<in> set (filter is_angle t) \<longleftrightarrow> CHR ''>'' \<in> set t"
    by (auto simp: is_angle_def)
  with Cons show ?case by (auto simp: is_angle_def)
qed

lemma has_tag_same_angles: "filter is_angle s = filter is_angle t \<Longrightarrow> has_tag s = has_tag t"
  by (metis has_tag_filter)

lemma no_tag_after_strip: "\<not> has_tag (replace_all match_tag [] s)"
proof (induction "length s" arbitrary: s rule: less_induct)
  case less
  show ?case
  proof (cases s)
    case Nil
    then show ?thesis by simp
  next
    case (Cons x xs)
    show ?thesis
    proof (cases "match_tag (x # xs)")
      case None
      have "\<not> has_tag (replace_all match_tag [] xs)" using Cons by (intro less) simp
      moreover have "match_tag (x # replace_all match_tag [] xs) = None"
        using None set_replace_all [of match_tag "[]" xs] by (auto split: if_splits)
      ultimately show ?thesis using Cons None by simp
    next
      case (Some n)
      have "\<not> has_tag (replace_all match_tag [] (drop (n - 1) xs))"
        using Cons by (intro less) simp
      with Cons Some show ?thesis by simp
    qed
  qed
qed

lemma has_tag_take: "has_tag (take n s) \<Longrightarrow> has_tag s"
proof (induction s arbitrary: n)
  case Nil
  then show ?case by simp
next
  case (Cons c t)
  show ?case
  proof (cases n)
    case 0
    with Cons.prems show ?thesis by simp
  next
    case (Suc k)
    with Cons.prems have "(c = CHR ''<'' \<and> CHR ''>'' \<in> set (take k t)) \<or> has_tag (take k t)"
      by (auto split: if_splits)
    then show ?thesis using Cons.IH [of k] by (auto dest: in_set_takeD)
  qed
qed

lemma has_tag_append_plain: "filter is_angle r = [] \<Longrightarrow> has_tag (s @ r) = has_tag s"
  by (rule has_tag_same_angles) simp

subsection \<open>Matchers\<close>

lemma lower_ascii_lt: "lower_ascii c = CHR ''<'' \<Longrightarrow> c = CHR ''<''"
proof -
  assume a: "lower_ascii c = CHR ''<''"
  show ?thesis
  proof (cases "65 \<le> (of_char c :: nat) \<and> (of_char c :: nat) \<le> 90")
    case True
    with a have "char_of ((of_char c :: nat) + 32) = CHR ''<''" by (simp add: lower_ascii_def)
    then have "(of_char (char_of ((of_char c :: nat) + 32) :: char) :: nat) = of_char (CHR ''<'')"
      by simp
    then have "((of_char c :: nat) + 32) mod 256 = 60" by simp
    moreover have "((of_char c :: nat) + 32) mod 256 = of_char c + 32" using True by simp
    ultimately have "(of_char c :: nat) + 32 = 60" by simp
    with True show ?thesis by simp
  next
    case False
    with a show ?thesis by (simp add: lower_ascii_def)
  qed
qed

lemma ci_prefix_lt_head: "ci_prefix (CHR ''<'' # ps) t = Some u \<Longrightarrow> t \<noteq> [] \<and> hd t = CHR ''<''"
  by (cases t) (auto split: if_splits dest: lower_ascii_lt)

lemma match_br_head: "match_br t \<noteq> None \<Longrightarrow> t \<noteq> [] \<and> hd t = CHR ''<''"
  by (auto simp: match_br_def split: option.splits dest: ci_prefix_lt_head)

lemma match_lit_ci_head:
  "match_lit_ci (CHR ''<'' # ps) t \<noteq> None \<Longrightarrow> t \<noteq> [] \<and> hd t = CHR ''<''"
  by (auto simp: match_lit_ci_def split: option.splits dest: ci_prefix_lt_head)

lemma match_tag_head: "match_tag t \<noteq> None \<Longrightarrow> t \<noteq> [] \<and> hd t = CHR ''<''"
  by (cases t) (auto split: if_splits)

lemma match_lit_head: "match_lit (p # ps) t \<noteq> None \<Longrightarrow> t \<noteq> [] \<and> hd t = p"
  by (cases t) (auto simp: match_lit_def split: if_splits)

lemma replace_lit_absent: "p \<notin> set s \<Longrightarrow> replace_all (match_lit (p # ps)) r s = s"
  by (rule replace_all_no_match [where c = p]) (rule match_lit_head)

lemma match_lit_plain:
  assumes "match_lit p t = Some n" and "p \<noteq> []" and "filter Q p = []"
  shows "0 < n \<and> filter Q (take n t) = []"
  using assms by (auto simp: match_lit_def split: if_splits)

lemma match_blank_spaces:
  assumes "match_blank t = Some n"
  shows "0 < n \<and> (\<forall>c \<in> set (take n t). is_space c)"
proof (cases t)
  case Nil
  with assms show ?thesis by simp
next
  case (Cons c u)
  let ?ws = "takeWhile is_space u"
  from assms Cons have c: "c = CHR 0x0A"
    and n: "n = 1 + (length ?ws - length (takeWhile (\<lambda>d. d \<noteq> CHR 0x0A) (rev ?ws)))"
    by (auto simp: Let_def split: if_splits)
  have "take (n - 1) u = take (n - 1) ?ws"
  proof -
    have "n - 1 \<le> length ?ws" using n by simp
    moreover have "take (n - 1) (?ws @ dropWhile is_space u) =
        take (n - 1) ?ws @ take (n - 1 - length ?ws) (dropWhile is_space u)"
      by (rule take_append)
    ultimately show ?thesis by simp
  qed
  then have "set (take (n - 1) u) \<subseteq> set ?ws" by (simp add: set_take_subset)
  then have "\<forall>d \<in> set (take (n - 1) u). is_space d" by (auto dest: set_takeWhileD)
  moreover have "is_space c" using c by (simp add: is_space_def)
  moreover have "take n t = c # take (n - 1) u" using n Cons by simp
  ultimately show ?thesis using n by simp
qed

lemma space_not_angle: "is_space c \<Longrightarrow> \<not> is_angle c"
  by (auto simp: is_space_def is_angle_def)

lemma match_blank_plain:
  assumes "match_blank t = Some n"
  shows "0 < n \<and> filter is_angle (take n t) = []"
  using match_blank_spaces [OF assms] by (auto simp: filter_empty_conv space_not_angle)

lemma filter_replace_lit:
  assumes "p \<noteq> []" and "filter Q p = []" and "filter Q r = []"
  shows "filter Q (replace_all (match_lit p) r s) = filter Q s"
proof (rule filter_replace_all)
  fix t n
  assume "match_lit p t = Some n"
  then show "0 < n \<and> filter Q (take n t) = []" using assms(1,2) by (rule match_lit_plain)
next
  show "filter Q r = []" by (rule assms(3))
qed

lemma filter_replace_blank:
  assumes "filter is_angle r = []"
  shows "filter is_angle (replace_all match_blank r s) = filter is_angle s"
proof (rule filter_replace_all)
  fix t n
  assume "match_blank t = Some n"
  then show "0 < n \<and> filter is_angle (take n t) = []" by (rule match_blank_plain)
next
  show "filter is_angle r = []" by (rule assms)
qed

lemma filter_dropWhile_spaces: "filter is_angle (dropWhile is_space s) = filter is_angle s"
  by (induction s) (auto simp: space_not_angle)

lemma filter_trim: "filter is_angle (trim s) = filter is_angle s"
proof -
  have "filter is_angle (trim s) = rev (filter is_angle (dropWhile is_space (rev (dropWhile is_space s))))"
    by (simp add: trim_def rev_filter)
  also have "\<dots> = rev (filter is_angle (rev (dropWhile is_space s)))"
    by (simp only: filter_dropWhile_spaces)
  also have "\<dots> = filter is_angle (dropWhile is_space s)" by (simp add: rev_filter)
  finally show ?thesis by (simp add: filter_dropWhile_spaces)
qed

text \<open>The stripped text of a string without \<open>&\<close> has no tag left.\<close>

lemma stripHtmlTags_no_tag:
  assumes "CHR ''&'' \<notin> set s"
  shows "\<not> has_tag (stripHtmlTags s)"
proof (cases "s = []")
  case True
  then show ?thesis by (simp add: stripHtmlTags_def)
next
  case False
  define t3 where "t3 =
    replace_all (match_lit_ci ''</div>'') [CHR 0x0A]
      (replace_all (match_lit_ci ''</p>'') [CHR 0x0A] (replace_all match_br [CHR 0x0A] s))"
  define t4 where "t4 = replace_all match_tag [] t3"
  have "CHR ''&'' \<notin> set t3"
    unfolding t3_def using assms by (intro replace_all_absent) simp_all
  then have a: "CHR ''&'' \<notin> set t4"
    unfolding t4_def by (intro replace_all_absent) simp_all
  have nt: "\<not> has_tag t4" unfolding t4_def by (rule no_tag_after_strip)
  have e: "replace_all (match_lit (CHR ''&'' # p)) r t4 = t4" for p r
    using a by (rule replace_lit_absent)
  define u3 where "u3 =
    replace_all match_blank [CHR 0x0A, CHR 0x0A]
      (replace_all (match_lit [CHR 0x0D]) [CHR 0x0A]
        (replace_all (match_lit [CHR 0x0D, CHR 0x0A]) [CHR 0x0A] t4))"
  have "filter is_angle u3 = filter is_angle t4"
    unfolding u3_def
    by (simp add: filter_replace_blank filter_replace_lit is_angle_def)
  then have "filter is_angle (trim u3) = filter is_angle t4" by (simp add: filter_trim)
  then have "has_tag (trim u3) = has_tag t4" by (rule has_tag_same_angles)
  moreover have "stripHtmlTags s = trim u3"
    using False by (simp add: stripHtmlTags_def Let_def u3_def e t4_def [symmetric] t3_def [symmetric])
  ultimately show ?thesis using nt by simp
qed

subsection \<open>Stripping in the body reducer\<close>

lemma truncated_no_tag: "\<not> has_tag t \<Longrightarrow> \<not> has_tag (truncated config t)"
proof -
  assume n: "\<not> has_tag t"
  have "filter is_angle ''...[TRUNCATED]'' = []" by (simp add: is_angle_def)
  then have "has_tag (take k t @ ''...[TRUNCATED]'') = has_tag (take k t)" for k
    by (rule has_tag_append_plain)
  with n show ?thesis by (auto simp: truncated_def substring0_def dest: has_tag_take)
qed

lemma body_contentType:
  assumes "member body ''content'' = JStr s" and "s \<noteq> []"
  shows "member (optimizeMessageBody body config) ''contentType'' =
           (if strips config body (media_reduced config s) then JStr ''text''
            else member body ''contentType'')"
proof -
  from assms obtain kvs where b: "body = JObj kvs" by (auto dest: member_JStr_obj)
  from assms show ?thesis unfolding b
    by (simp add: optimizeMessageBody_def Let_def obj_get_set)
qed

text \<open>
  Claim C6, as the code has it. For a body with a non-empty string content: when
  \<^verbatim>\<open>stripHtmlToText\<close> is set or the media-reduced content is longer than
  \<^verbatim>\<open>maxHtmlContentSize\<close>, and moreover the \<^verbatim>\<open>contentType\<close> of the body is \<^verbatim>\<open>html\<close> or the
  media-reduced content contains \<^verbatim>\<open><\<close>, the content of the result is the stripped
  media-reduced content (truncated where too long) and its \<^verbatim>\<open>contentType\<close> is \<^verbatim>\<open>text\<close>;
  this content has no tag markup provided the media-reduced content has no \<^verbatim>\<open>&\<close> (the
  entities are decoded after the tags are removed, and may spell a tag). Otherwise nothing
  is stripped: the content is the media-reduced content, truncated where too long, and the
  \<^verbatim>\<open>contentType\<close> stays as it was.
\<close>

theorem optimizeMessageBody_strips:
  assumes "member body ''content'' = JStr s" and "s \<noteq> []"
  shows "((stripHtmlToText config \<or> int (length (media_reduced config s)) > maxHtmlContentSize config) \<and>
          (member body ''contentType'' = JStr ''html'' \<or> CHR ''<'' \<in> set (media_reduced config s)) \<longrightarrow>
            member (optimizeMessageBody body config) ''contentType'' = JStr ''text'' \<and>
            member (optimizeMessageBody body config) ''content'' =
              JStr (truncated config (stripHtmlTags (media_reduced config s))) \<and>
            (CHR ''&'' \<notin> set (media_reduced config s) \<longrightarrow>
               \<not> has_tag (truncated config (stripHtmlTags (media_reduced config s))))) \<and>
         (\<not> ((stripHtmlToText config \<or> int (length (media_reduced config s)) > maxHtmlContentSize config) \<and>
             (member body ''contentType'' = JStr ''html'' \<or> CHR ''<'' \<in> set (media_reduced config s))) \<longrightarrow>
            member (optimizeMessageBody body config) ''contentType'' = member body ''contentType'' \<and>
            member (optimizeMessageBody body config) ''content'' =
              JStr (truncated config (media_reduced config s)))"
proof -
  have c: "member (optimizeMessageBody body config) ''content'' =
        JStr (truncated config (content_before_truncation config body s))"
    using assms by (simp add: body_content)
  have t: "member (optimizeMessageBody body config) ''contentType'' =
           (if strips config body (media_reduced config s) then JStr ''text''
            else member body ''contentType'')"
    using assms by (rule body_contentType)
  have n: "CHR ''&'' \<notin> set (media_reduced config s) \<Longrightarrow>
           \<not> has_tag (truncated config (stripHtmlTags (media_reduced config s)))"
    by (intro truncated_no_tag stripHtmlTags_no_tag)
  from c t n show ?thesis
    by (simp add: content_before_truncation_def strips_def)
qed

theorem optimizeMessageBody_strips_witness:
  "member body_html_paragraph ''content'' = JStr ''<p>Hi</p>'' \<and> ''<p>Hi</p>'' \<noteq> [] \<and>
   stripHtmlToText DEFAULT_LLM_OPTIMIZATION \<and>
   member body_html_paragraph ''contentType'' = JStr ''html'' \<and>
   member (optimizeMessageBody body_html_paragraph DEFAULT_LLM_OPTIMIZATION) ''contentType'' = JStr ''text'' \<and>
   member (optimizeMessageBody body_html_paragraph DEFAULT_LLM_OPTIMIZATION) ''content'' = JStr ''Hi''"
  using optimizeMessageBody_strips [of body_html_paragraph "''<p>Hi</p>''" DEFAULT_LLM_OPTIMIZATION]
  by (simp add: body_html_paragraph_def obj_get_def DEFAULT_LLM_OPTIMIZATION_def
      truncated_def media_reduced_def removeEmbeddedImages_def removeInlineAttachments_def
      match_img_def lower_ascii_def stripHtmlTags_def match_br_def match_lit_ci_def match_lit_def
      trim_def is_space_def)

text \<open>
  The examples, under the default configuration, which sets \<^verbatim>\<open>stripHtmlToText\<close>: a body
  of type \<^verbatim>\<open>text\<close> without \<^verbatim>\<open><\<close> keeps its entity, which the tag stripper would decode;
  a body of type \<^verbatim>\<open>html\<close> whose entities spell a tag comes out with that tag.
\<close>

theorem optimizeMessageBody_strips_counterexample:
  "stripHtmlToText DEFAULT_LLM_OPTIMIZATION \<and>
   member (optimizeMessageBody body_text_with_entity DEFAULT_LLM_OPTIMIZATION) ''content''
     = JStr ''a &amp; b'' \<and>
   stripHtmlTags ''a &amp; b'' = ''a & b'' \<and>
   member (optimizeMessageBody body_html_with_entities DEFAULT_LLM_OPTIMIZATION) ''content''
     = JStr ''<b>'' \<and>
   has_tag ''<b>''"
  by (simp add: body_text_with_entity_def body_html_with_entities_def obj_get_def obj_get_set
      optimizeMessageBody_def strips_def DEFAULT_LLM_OPTIMIZATION_def
      truncated_def media_reduced_def removeEmbeddedImages_def removeInlineAttachments_def
      match_img_def lower_ascii_def stripHtmlTags_def match_br_def match_lit_ci_def match_lit_def
      trim_def is_space_def)

subsection \<open>Blank lines\<close>

declare match_blank.simps [simp del]

lemma space_LF: "is_space (CHR 0x0A)"
  by (simp add: is_space_def)

lemma last_line_feed:
  assumes "CHR 0x0A \<in> set ws"
  shows "\<exists>a b. ws = a @ CHR 0x0A # b \<and> CHR 0x0A \<notin> set b \<and>
           length ws - length (takeWhile (\<lambda>d. d \<noteq> CHR 0x0A) (rev ws)) = length a + 1"
proof -
  from assms obtain a b where w: "ws = a @ CHR 0x0A # b" and b: "CHR 0x0A \<notin> set b"
    by (auto dest: split_list_last)
  have "rev ws = rev b @ CHR 0x0A # rev a" using w by simp
  moreover have "takeWhile (\<lambda>d. d \<noteq> CHR 0x0A) (rev b @ CHR 0x0A # rev a) = rev b"
    using b by (auto simp: takeWhile_tail)
  ultimately have "length (takeWhile (\<lambda>d. d \<noteq> CHR 0x0A) (rev ws)) = length b" by simp
  with w b show ?thesis by auto
qed

text \<open>What a match of the blank-line expression leaves behind.\<close>

lemma match_blank_Some:
  assumes "match_blank (c # u) = Some n"
  shows "\<exists>a b. c = CHR 0x0A \<and> takeWhile is_space u = a @ CHR 0x0A # b \<and> CHR 0x0A \<notin> set b \<and>
           n = length a + 2 \<and> drop (n - 1) u = b @ dropWhile is_space u"
proof -
  let ?ws = "takeWhile is_space u"
  from assms have c: "c = CHR 0x0A" and m: "CHR 0x0A \<in> set ?ws"
    and n: "n = 1 + (length ?ws - length (takeWhile (\<lambda>d. d \<noteq> CHR 0x0A) (rev ?ws)))"
    by (auto simp: match_blank.simps Let_def split: if_splits)
  from last_line_feed [OF m] obtain a b where w: "?ws = a @ CHR 0x0A # b"
    and b: "CHR 0x0A \<notin> set b"
    and k: "length ?ws - length (takeWhile (\<lambda>d. d \<noteq> CHR 0x0A) (rev ?ws)) = length a + 1"
    by blast
  define rest where "rest = dropWhile is_space u"
  have "u = (a @ [CHR 0x0A]) @ b @ rest"
    using w takeWhile_dropWhile_id [of is_space u] by (simp add: rest_def)
  then have "drop (length a + 1) u = b @ rest" by simp
  with c w b n k show ?thesis by (auto simp: rest_def)
qed

lemma match_blank_None:
  "match_blank (c # u) = None \<longleftrightarrow> c \<noteq> CHR 0x0A \<or> CHR 0x0A \<notin> set (takeWhile is_space u)"
  by (simp add: match_blank.simps Let_def)

lemma match_blank_same_spaces:
  "takeWhile is_space u' = takeWhile is_space u \<Longrightarrow> match_blank (c # u') = match_blank (c # u)"
  by (simp add: match_blank.simps Let_def)

lemma collapse_Nil: "collapse [] = []"
  by (simp add: collapse_def)

lemma collapse_None: "match_blank (c # u) = None \<Longrightarrow> collapse (c # u) = c # collapse u"
  by (simp add: collapse_def)

lemma collapse_Some:
  "match_blank (c # u) = Some n \<Longrightarrow>
   collapse (c # u) = CHR 0x0A # CHR 0x0A # collapse (drop (n - 1) u)"
  by (simp add: collapse_def)

lemma collapse_nonspace: "\<not> is_space c \<Longrightarrow> collapse (c # u) = c # collapse u"
  using space_LF by (intro collapse_None) (auto simp: match_blank_None)

lemma collapse_empty: "collapse s = [] \<longleftrightarrow> s = []"
proof (cases s)
  case Nil
  then show ?thesis by (simp add: collapse_Nil)
next
  case (Cons c u)
  then show ?thesis
    by (cases "match_blank (c # u)") (simp_all add: collapse_None collapse_Some)
qed

lemma collapse_space_prefix:
  "CHR 0x0A \<notin> set (takeWhile is_space s) \<Longrightarrow>
   collapse s = takeWhile is_space s @ collapse (dropWhile is_space s)"
proof (induction s)
  case Nil
  then show ?case by (simp add: collapse_Nil)
next
  case (Cons c t)
  show ?case
  proof (cases "is_space c")
    case True
    with Cons.prems have "c \<noteq> CHR 0x0A" and "CHR 0x0A \<notin> set (takeWhile is_space t)"
      by auto
    then show ?thesis using True Cons.IH by (simp add: collapse_None match_blank_None)
  next
    case False
    then show ?thesis by simp
  qed
qed

lemma takeWhile_collapse:
  assumes "CHR 0x0A \<notin> set (takeWhile is_space s)"
  shows "takeWhile is_space (collapse s) = takeWhile is_space s"
proof -
  have "takeWhile is_space (collapse (dropWhile is_space s)) = []"
  proof (cases "dropWhile is_space s")
    case Nil
    show ?thesis by (simp add: Nil collapse_Nil)
  next
    case (Cons d r)
    then have "\<not> is_space d" by (metis hd_dropWhile list.sel(1) list.distinct(1))
    with Cons show ?thesis by (simp add: collapse_nonspace)
  qed
  then have "takeWhile is_space (takeWhile is_space s @ collapse (dropWhile is_space s)) =
             takeWhile is_space s @ []"
    by (subst takeWhile_append2) (auto dest: set_takeWhileD)
  then show ?thesis
    by (simp only: collapse_space_prefix [OF assms, symmetric] append_Nil2)
qed

lemma match_blank_pair:
  assumes "CHR 0x0A \<notin> set (takeWhile is_space w)"
  shows "match_blank (CHR 0x0A # CHR 0x0A # w) = Some 2"
proof -
  let ?b = "takeWhile is_space w"
  have "takeWhile (\<lambda>d. d \<noteq> CHR 0x0A) (rev ?b @ [CHR 0x0A]) = rev ?b"
    using assms by (auto simp: takeWhile_tail)
  then show ?thesis using space_LF by (simp add: match_blank.simps Let_def)
qed

lemma collapse_pair:
  assumes "CHR 0x0A \<notin> set (takeWhile is_space w)"
  shows "collapse (CHR 0x0A # CHR 0x0A # w) = CHR 0x0A # CHR 0x0A # collapse w"
  using collapse_Some [OF match_blank_pair [OF assms]] by simp

text \<open>The blank-line step changes nothing in its own result.\<close>

lemma collapse_idem: "collapse (collapse s) = collapse s"
proof (induction "length s" arbitrary: s rule: less_induct)
  case less
  show ?case
  proof (cases s)
    case Nil
    then show ?thesis by (simp add: collapse_Nil)
  next
    case (Cons c u)
    have ih: "collapse (collapse v) = collapse v" if "length v \<le> length u" for v
      using that Cons by (intro less) simp
    show ?thesis
    proof (cases "match_blank (c # u)")
      case None
      have "match_blank (c # collapse u) = None"
      proof (cases "c = CHR 0x0A")
        case True
        with None have "CHR 0x0A \<notin> set (takeWhile is_space u)" by (simp add: match_blank_None)
        then show ?thesis by (simp add: match_blank_None takeWhile_collapse)
      next
        case False
        then show ?thesis by (simp add: match_blank_None)
      qed
      then show ?thesis using None Cons ih [of u] by (simp add: collapse_None)
    next
      case (Some n)
      from match_blank_Some [OF Some] obtain a b where
        d: "drop (n - 1) u = b @ dropWhile is_space u" and b: "CHR 0x0A \<notin> set b"
        and w: "takeWhile is_space u = a @ CHR 0x0A # b"
        by blast
      have sb: "\<forall>x \<in> set b. is_space x"
        using w set_takeWhileD [of _ is_space u] by auto
      have "takeWhile is_space (b @ dropWhile is_space u) = b"
      proof (cases "dropWhile is_space u")
        case Nil
        show ?thesis using sb by (simp add: Nil)
      next
        case (Cons e r)
        then have "\<not> is_space e" by (metis hd_dropWhile list.sel(1) list.distinct(1))
        with Cons sb show ?thesis by (simp add: takeWhile_append)
      qed
      with d b have n: "CHR 0x0A \<notin> set (takeWhile is_space (drop (n - 1) u))" by simp
      then have "CHR 0x0A \<notin> set (takeWhile is_space (collapse (drop (n - 1) u)))"
        by (simp add: takeWhile_collapse)
      then have "collapse (CHR 0x0A # CHR 0x0A # collapse (drop (n - 1) u)) =
                 CHR 0x0A # CHR 0x0A # collapse (collapse (drop (n - 1) u))"
        by (rule collapse_pair)
      then show ?thesis using Some Cons ih [of "drop (n - 1) u"] by (simp add: collapse_Some)
    qed
  qed
qed

lemma match_blank_rest:
  assumes "match_blank (c # u) = Some n"
  shows "dropWhile is_space (drop (n - 1) u) = dropWhile is_space u"
    and "n - 1 \<le> length (takeWhile is_space u)"
proof -
  from match_blank_Some [OF assms] obtain a b where
    d: "drop (n - 1) u = b @ dropWhile is_space u"
    and w: "takeWhile is_space u = a @ CHR 0x0A # b" and n: "n = length a + 2"
    by blast
  have "\<forall>x \<in> set b. is_space x" using w set_takeWhileD [of _ is_space u] by auto
  then have "dropWhile is_space (b @ dropWhile is_space u) = dropWhile is_space (dropWhile is_space u)"
    by (simp add: dropWhile_append2)
  with d show "dropWhile is_space (drop (n - 1) u) = dropWhile is_space u" by simp
  from w n show "n - 1 \<le> length (takeWhile is_space u)" by simp
qed

text \<open>The blank-line step and the two halves of \<^verbatim>\<open>trim()\<close> can be exchanged.\<close>

lemma dropWhile_collapse: "dropWhile is_space (collapse s) = collapse (dropWhile is_space s)"
proof (induction "length s" arbitrary: s rule: less_induct)
  case less
  show ?case
  proof (cases s)
    case Nil
    then show ?thesis by (simp add: collapse_Nil)
  next
    case (Cons c u)
    have ih: "dropWhile is_space (collapse v) = collapse (dropWhile is_space v)"
      if "length v \<le> length u" for v
      using that Cons by (intro less) simp
    show ?thesis
    proof (cases "is_space c")
      case False
      with Cons show ?thesis by (simp add: collapse_nonspace)
    next
      case True
      show ?thesis
      proof (cases "match_blank (c # u)")
        case None
        with True Cons ih [of u] show ?thesis by (simp add: collapse_None)
      next
        case (Some n)
        have "dropWhile is_space (collapse (c # u)) = dropWhile is_space (collapse (drop (n - 1) u))"
          using space_LF by (simp add: collapse_Some [OF Some])
        also have "\<dots> = collapse (dropWhile is_space (drop (n - 1) u))"
          by (rule ih) simp
        also have "\<dots> = collapse (dropWhile is_space u)"
          by (simp only: match_blank_rest(1) [OF Some])
        finally show ?thesis using True Cons by simp
      qed
    qed
  qed
qed

lemma rtrim_empty: "rtrim s = [] \<longleftrightarrow> (\<forall>c \<in> set s. is_space c)"
  by (simp add: rtrim_def)

lemma rtrim_append: "rtrim (a @ b) = (if rtrim b = [] then rtrim a else a @ rtrim b)"
  by (simp add: rtrim_def dropWhile_append)

lemma rtrim_split: "s = rtrim s @ rev (takeWhile is_space (rev s))"
proof -
  have "rev (takeWhile is_space (rev s) @ dropWhile is_space (rev s)) = rev (rev s)"
    by (simp only: takeWhile_dropWhile_id)
  then have "rev (dropWhile is_space (rev s)) @ rev (takeWhile is_space (rev s)) = s"
    by (simp only: rev_append rev_rev_ident)
  then show ?thesis by (simp only: rtrim_def)
qed

lemma rtrim_last: "rtrim s \<noteq> [] \<Longrightarrow> \<not> is_space (last (rtrim s))"
proof -
  assume "rtrim s \<noteq> []"
  then have n: "dropWhile is_space (rev s) \<noteq> []" by (simp add: rtrim_def)
  then have "\<not> is_space (hd (dropWhile is_space (rev s)))" by (rule hd_dropWhile)
  with n show ?thesis by (simp add: rtrim_def last_rev)
qed

lemma takeWhile_rtrim:
  assumes "rtrim u \<noteq> []"
  shows "takeWhile is_space (rtrim u) = takeWhile is_space u"
proof -
  have "last (rtrim u) \<in> set (rtrim u)" using assms by simp
  moreover have "\<not> is_space (last (rtrim u))" using assms by (rule rtrim_last)
  ultimately have "takeWhile is_space (rtrim u @ rev (takeWhile is_space (rev u))) =
                   takeWhile is_space (rtrim u)"
    by (rule takeWhile_append1)
  then show ?thesis by (simp only: rtrim_split [symmetric])
qed

lemma rtrim_drop:
  assumes "k \<le> length (takeWhile is_space u)" and "rtrim u \<noteq> []"
  shows "rtrim (drop k u) = drop k (rtrim u)" and "rtrim (drop k u) \<noteq> []"
proof -
  have "take k u = take k (takeWhile is_space u @ dropWhile is_space u)" by simp
  also have "\<dots> = take k (takeWhile is_space u)" using assms(1) by (simp del: takeWhile_dropWhile_id)
  finally have "set (take k u) \<subseteq> set (takeWhile is_space u)" by (simp add: set_take_subset)
  then have "\<forall>c \<in> set (take k u). is_space c" by (auto dest: set_takeWhileD)
  then have e: "rtrim (take k u) = []" by (simp add: rtrim_empty)
  have r: "rtrim (take k u @ drop k u) =
        (if rtrim (drop k u) = [] then rtrim (take k u) else take k u @ rtrim (drop k u))"
    by (rule rtrim_append)
  from r e assms(2) show n: "rtrim (drop k u) \<noteq> []" by (auto split: if_splits)
  have "k \<le> length u" using assms(1) length_takeWhile_le [of is_space u] by simp
  with r n show "rtrim (drop k u) = drop k (rtrim u)" by simp
qed

lemma rtrim_collapse: "rtrim (collapse s) = collapse (rtrim s)"
proof (induction "length s" arbitrary: s rule: less_induct)
  case less
  show ?case
  proof (cases s)
    case Nil
    then show ?thesis by (simp add: collapse_Nil rtrim_def)
  next
    case (Cons c u)
    have ih: "rtrim (collapse v) = collapse (rtrim v)" if "length v \<le> length u" for v
      using that Cons by (intro less) simp
    have one: "collapse (rtrim [c]) = rtrim [c]"
      by (simp add: rtrim_def collapse_Nil collapse_nonspace)
    show ?thesis
    proof (cases "rtrim u = []")
      case True
      then have cu: "rtrim (collapse u) = []" using ih [of u] by (simp add: collapse_Nil)
      have su: "rtrim (c # u) = rtrim [c]" using True rtrim_append [of "[c]" u] by simp
      show ?thesis
      proof (cases "match_blank (c # u)")
        case None
        have "rtrim (c # collapse u) = rtrim [c]" using cu rtrim_append [of "[c]" "collapse u"] by simp
        with None su one Cons show ?thesis by (simp add: collapse_None)
      next
        case (Some n)
        from match_blank_Some [OF Some] have c: "c = CHR 0x0A" by blast
        have "\<forall>x \<in> set (drop (n - 1) u). is_space x"
          using True by (auto simp: rtrim_empty dest: in_set_dropD)
        then have "rtrim (drop (n - 1) u) = []" by (simp add: rtrim_empty)
        then have "rtrim (collapse (drop (n - 1) u)) = []"
          using ih [of "drop (n - 1) u"] by (simp add: collapse_Nil)
        then have "rtrim ([CHR 0x0A, CHR 0x0A] @ collapse (drop (n - 1) u)) = []"
          using space_LF by (simp only: rtrim_append) (simp add: rtrim_def)
        moreover have "rtrim (c # u) = []" using su c space_LF by (simp add: rtrim_def)
        ultimately show ?thesis using Some Cons by (simp add: collapse_Some collapse_Nil)
      qed
    next
      case False
      then have cr: "collapse (rtrim u) \<noteq> []" by (simp add: collapse_empty)
      have su: "rtrim (c # u) = c # rtrim u" using False rtrim_append [of "[c]" u] by simp
      have m: "match_blank (c # rtrim u) = match_blank (c # u)"
        using takeWhile_rtrim [OF False] by (rule match_blank_same_spaces)
      show ?thesis
      proof (cases "match_blank (c # u)")
        case None
        have "rtrim (c # collapse u) = c # rtrim (collapse u)"
          using cr ih [of u] rtrim_append [of "[c]" "collapse u"] by simp
        then show ?thesis using None m su Cons ih [of u] by (simp add: collapse_None)
      next
        case (Some n)
        have k: "n - 1 \<le> length (takeWhile is_space u)" by (rule match_blank_rest(2) [OF Some])
        have d: "rtrim (drop (n - 1) u) = drop (n - 1) (rtrim u)"
          and dn: "rtrim (drop (n - 1) u) \<noteq> []"
          using rtrim_drop [OF k False] by simp_all
        have i: "rtrim (collapse (drop (n - 1) u)) = collapse (rtrim (drop (n - 1) u))"
          by (rule ih) simp
        with dn have "rtrim (collapse (drop (n - 1) u)) \<noteq> []" by (simp add: collapse_empty)
        then have "rtrim ([CHR 0x0A, CHR 0x0A] @ collapse (drop (n - 1) u)) =
                   [CHR 0x0A, CHR 0x0A] @ rtrim (collapse (drop (n - 1) u))"
          by (simp only: rtrim_append if_False)
        then have "rtrim (collapse (c # u)) = CHR 0x0A # CHR 0x0A # collapse (rtrim (drop (n - 1) u))"
          using i by (simp add: collapse_Some [OF Some])
        moreover have "collapse (c # rtrim u) = CHR 0x0A # CHR 0x0A # collapse (drop (n - 1) (rtrim u))"
          using m Some by (intro collapse_Some) simp
        ultimately show ?thesis using su d Cons by simp
      qed
    qed
  qed
qed

subsection \<open>Idempotence of the tag stripper\<close>

lemma trim_rtrim: "trim s = rtrim (dropWhile is_space s)"
  by (simp add: trim_def rtrim_def)

lemma trim_collapse: "trim (collapse s) = collapse (trim s)"
  by (simp add: trim_rtrim dropWhile_collapse rtrim_collapse)

lemma rtrim_idem: "rtrim (rtrim s) = rtrim s"
  by (simp add: rtrim_def)

lemma dropWhile_rtrim_dropWhile:
  "dropWhile is_space (rtrim (dropWhile is_space s)) = rtrim (dropWhile is_space s)"
proof (cases "rtrim (dropWhile is_space s) = []")
  case True
  then show ?thesis by simp
next
  case False
  let ?z = "dropWhile is_space s"
  have z: "?z \<noteq> []"
  proof
    assume e: "?z = []"
    have "rtrim ?z = []" unfolding e by (simp add: rtrim_def)
    with False show False by (rule notE)
  qed
  have "?z = rtrim ?z @ rev (takeWhile is_space (rev ?z))" by (rule rtrim_split)
  then have "hd ?z = hd (rtrim ?z)" using False by (metis hd_append2)
  moreover have "\<not> is_space (hd ?z)" using z by (rule hd_dropWhile)
  ultimately have "\<not> is_space (hd (rtrim ?z))" by simp
  with False show ?thesis by (cases "rtrim ?z") simp_all
qed

lemma trim_idem: "trim (trim s) = trim s"
  by (simp add: trim_rtrim dropWhile_rtrim_dropWhile rtrim_idem)

lemma set_trim: "set (trim s) \<subseteq> set s"
proof
  fix x
  assume "x \<in> set (trim s)"
  then have "x \<in> set (dropWhile is_space (rev (dropWhile is_space s)))"
    by (simp only: trim_def set_rev)
  then have "x \<in> set (rev (dropWhile is_space s))" by (rule set_dropWhileD)
  then have "x \<in> set (dropWhile is_space s)" by (simp only: set_rev)
  then show "x \<in> set s" by (rule set_dropWhileD)
qed

lemma no_carriage_return:
  "CHR 0x0D \<notin> set (replace_all (match_lit [CHR 0x0D]) [CHR 0x0A] s)"
proof (induction s)
  case Nil
  then show ?case by simp
next
  case (Cons c t)
  then show ?case by (cases "c = CHR 0x0D") (simp_all add: match_lit_def)
qed

lemma replace_br_absent: "CHR ''<'' \<notin> set s \<Longrightarrow> replace_all match_br r s = s"
  by (rule replace_all_no_match [where c = "CHR ''<''"]) (rule match_br_head)

lemma replace_lit_ci_absent:
  "CHR ''<'' \<notin> set s \<Longrightarrow> replace_all (match_lit_ci (CHR ''<'' # ps)) r s = s"
  by (rule replace_all_no_match [where c = "CHR ''<''"]) (rule match_lit_ci_head)

lemma replace_tag_absent: "CHR ''<'' \<notin> set s \<Longrightarrow> replace_all match_tag r s = s"
  by (rule replace_all_no_match [where c = "CHR ''<''"]) (rule match_tag_head)

lemma stripHtmlTags_plain:
  assumes "CHR ''<'' \<notin> set t" and "CHR ''&'' \<notin> set t" and "CHR 0x0D \<notin> set t"
  shows "stripHtmlTags t = trim (collapse t)"
proof (cases "t = []")
  case True
  then show ?thesis by (simp add: stripHtmlTags_def collapse_Nil trim_def)
next
  case False
  with assms show ?thesis
    by (simp add: stripHtmlTags_def Let_def collapse_def replace_br_absent replace_lit_ci_absent
        replace_tag_absent replace_lit_absent)
qed

text \<open>
  Claim C2, as the code has it. The tag stripper removes the tags before it decodes the
  entities, and decodes \<^verbatim>\<open>&amp;\<close> before the others, so its result may hold a tag or an
  entity again, which a second application removes or decodes. On every string whose
  stripped text holds neither \<^verbatim>\<open><\<close> nor \<^verbatim>\<open>&\<close>, stripping twice is stripping once.
\<close>

theorem stripHtmlTags_idempotent_plain:
  assumes "CHR ''<'' \<notin> set (stripHtmlTags s)" and "CHR ''&'' \<notin> set (stripHtmlTags s)"
  shows "stripHtmlTags (stripHtmlTags s) = stripHtmlTags s"
proof (cases "s = []")
  case True
  then show ?thesis by (simp add: stripHtmlTags_def)
next
  case False
  then obtain u where u: "stripHtmlTags s = trim (collapse u)" and r: "CHR 0x0D \<notin> set u"
    using no_carriage_return by (auto simp: stripHtmlTags_def Let_def collapse_def)
  have "CHR 0x0D \<notin> set (collapse u)"
    unfolding collapse_def using r by (intro replace_all_absent) simp_all
  then have "CHR 0x0D \<notin> set (stripHtmlTags s)" using set_trim [of "collapse u"] u by auto
  with assms have "stripHtmlTags (stripHtmlTags s) = trim (collapse (stripHtmlTags s))"
    by (rule stripHtmlTags_plain)
  also have "\<dots> = trim (trim (collapse (collapse u)))" by (simp only: u trim_collapse)
  also have "\<dots> = trim (collapse u)" by (simp only: collapse_idem trim_idem)
  finally show ?thesis by (simp only: u)
qed

theorem stripHtmlTags_idempotent_plain_witness:
  "CHR ''<'' \<notin> set (stripHtmlTags ''<p>a</p><br/>b'') \<and>
   CHR ''&'' \<notin> set (stripHtmlTags ''<p>a</p><br/>b'') \<and>
   stripHtmlTags ''<p>a</p><br/>b'' = [CHR ''a'', CHR 0x0A, CHR 0x0A, CHR ''b''] \<and>
   stripHtmlTags (stripHtmlTags ''<p>a</p><br/>b'') = [CHR ''a'', CHR 0x0A, CHR 0x0A, CHR ''b'']"
proof -
  have e: "stripHtmlTags ''<p>a</p><br/>b'' = [CHR ''a'', CHR 0x0A, CHR 0x0A, CHR ''b'']"
    by (simp add: stripHtmlTags_def match_br_def match_lit_ci_def match_lit_def lower_ascii_def
        trim_def is_space_def match_blank.simps)
  show ?thesis
    using stripHtmlTags_idempotent_plain [of "''<p>a</p><br/>b''"]
    by (simp add: e)
qed

text \<open>
  The example: the entities of \<^verbatim>\<open>&lt;b&gt;\<close> are decoded to a tag, and the second
  application removes it.
\<close>

theorem stripHtmlTags_idempotent_counterexample:
  "stripHtmlTags ''&lt;b&gt;'' = ''<b>'' \<and> stripHtmlTags (stripHtmlTags ''&lt;b&gt;'') = []"
proof -
  have 1: "stripHtmlTags ''&lt;b&gt;'' = ''<b>''"
    by (simp add: stripHtmlTags_def match_br_def match_lit_ci_def match_lit_def lower_ascii_def
        trim_def is_space_def match_blank.simps)
  have 2: "stripHtmlTags ''<b>'' = []"
    by (simp add: stripHtmlTags_def match_br_def match_lit_ci_def match_lit_def lower_ascii_def
        trim_def is_space_def match_blank.simps)
  from 1 2 show ?thesis by simp
qed

end
